theory Spec2Isabelle
  imports Complex_Main "HOL-Library.Multiset"
begin

section \<open>Stimulus and trial settings\<close>

text \<open>
  The constants of \<^verbatim>\<open>subitize.py\<close>. Counts that only drive loops are naturals;
  quantities the script computes with (pixel coordinates, circle counts, responses) are
  Python integers.
\<close>

definition N_BLOCKS :: nat where
  "N_BLOCKS = 3"

definition N_TRIALS :: nat where
  "N_TRIALS = 10"

definition CIRCLE_RADIUS :: int where
  "CIRCLE_RADIUS = 9"

definition CIRCLE_DIAMETER :: int where
  "CIRCLE_DIAMETER = CIRCLE_RADIUS * 2"

definition WINDOW_X :: int where
  "WINDOW_X = 600"

definition WINDOW_Y :: int where
  "WINDOW_Y = 600"

definition WINDOW_PADDING :: int where
  "WINDOW_PADDING = 200"

section \<open>The environment: randomness, clock and keyboard\<close>

text \<open>
  The script reads three things it does not control. They are inputs of the model:
  \<^item> \<open>rnd\<close>: the raw number behind the \<open>i\<close>-th call into Python's \<^verbatim>\<open>random\<close> module
    (one global generator serves \<^verbatim>\<open>random.shuffle\<close> and \<^verbatim>\<open>random.randint\<close>);
  \<^item> \<open>clock\<close>: the value returned by the \<open>i\<close>-th call of \<^verbatim>\<open>timer.getTime()\<close>
    (Python floats are read as reals);
  \<^item> the key names the participant presses, per trial and per phase: while the fixation
    cross is shown and the circles are being placed (\<open>fix_keys\<close>), while the circles are
    shown (\<open>stim_keys\<close>), and, in order, while \<^verbatim>\<open>event.waitKeys\<close> is blocking
    (\<open>wait_keys\<close>); \<open>start_keys\<close> and \<open>end_keys\<close> are the presses at the instruction
    and at the final screen.
  A key name is a Python string (\<^verbatim>\<open>'a'\<close>, \<^verbatim>\<open>'7'\<close>, \<^verbatim>\<open>'space'\<close>, \<^verbatim>\<open>'num_7'\<close>); a character
  stands for the code point of its number, so the names covered are those with code
  points below 256.
\<close>

record env =
  rnd :: "nat \<Rightarrow> nat"
  clock :: "nat \<Rightarrow> real"
  start_keys :: "string list"
  fix_keys :: "nat \<Rightarrow> string list"
  stim_keys :: "nat \<Rightarrow> string list"
  wait_keys :: "nat \<Rightarrow> string list"
  end_keys :: "string list"

datatype error = ValueError | IndexError

subsection \<open>The \<^verbatim>\<open>random\<close> module\<close>

text \<open>
  \<^verbatim>\<open>randbelow(n)\<close> yields a number in \<open>0..n-1\<close>; \<^verbatim>\<open>random.randint(a, b)\<close> is
  \<^verbatim>\<open>a + randbelow(b - a + 1)\<close> (the script only calls it with \<open>a \<le> b\<close>).
\<close>

definition randbelow :: "nat \<Rightarrow> nat \<Rightarrow> nat" where
  "randbelow n r = r mod n"

definition randint :: "int \<Rightarrow> int \<Rightarrow> nat \<Rightarrow> int" where
  "randint a b r = a + int (randbelow (nat (b - a + 1)) r)"

text \<open>
  \<^verbatim>\<open>random.shuffle(x)\<close>, in place:
  \<^verbatim>\<open>for i in reversed(range(1, len(x))): j = randbelow(i + 1); x[i], x[j] = x[j], x[i]\<close>.
  The second argument is the cursor into \<open>rnd\<close>; the new cursor is returned.
\<close>

fun shuffle_loop :: "nat \<Rightarrow> (nat \<Rightarrow> nat) \<Rightarrow> nat \<Rightarrow> 'a list \<Rightarrow> 'a list \<times> nat" where
  "shuffle_loop 0 g c x = (x, c)"
| "shuffle_loop (Suc i') g c x =
     (let i = Suc i';
          j = randbelow (i + 1) (g c)
      in shuffle_loop i' g (c + 1) (x[i := x ! j, j := x ! i]))"

definition shuffle :: "(nat \<Rightarrow> nat) \<Rightarrow> nat \<Rightarrow> 'a list \<Rightarrow> 'a list \<times> nat" where
  "shuffle g c x = shuffle_loop (length x - 1) g c x"

subsection \<open>Key names\<close>

text \<open>
  Below code point 256 the decimal digits are \<^verbatim>\<open>'0'\<close> to \<^verbatim>\<open>'9'\<close> (48 to 57); the
  characters of numeric value that are not decimal digits are the superscripts two,
  three and one (178, 179, 185) and the fractions one quarter, one half and three
  quarters (188, 189, 190).
  \<^verbatim>\<open>str.isnumeric()\<close> holds of a string that is not empty and has numeric characters
  only. \<^verbatim>\<open>int(k)\<close> is the decimal value of a string of decimal digits; on a string with
  another numeric character it raises \<^verbatim>\<open>ValueError\<close> (names with a sign, blanks or
  underscores, which \<^verbatim>\<open>int\<close> would also read, never reach it: every call stands behind
  \<^verbatim>\<open>isnumeric\<close> or the key list).
\<close>

definition is_digit :: "char \<Rightarrow> bool" where
  "is_digit ch \<longleftrightarrow> (48::nat) \<le> of_char ch \<and> of_char ch \<le> (57::nat)"

definition is_numeric_char :: "char \<Rightarrow> bool" where
  "is_numeric_char ch \<longleftrightarrow>
     is_digit ch \<or> (of_char ch :: nat) \<in> set [178, 179, 185, 188, 189, 190]"

definition isnumeric :: "string \<Rightarrow> bool" where
  "isnumeric k \<longleftrightarrow> k \<noteq> [] \<and> list_all is_numeric_char k"

definition isdecimal :: "string \<Rightarrow> bool" where
  "isdecimal k \<longleftrightarrow> k \<noteq> [] \<and> list_all is_digit k"

definition digit_value :: "char \<Rightarrow> int" where
  "digit_value ch = int (of_char ch) - 48"

definition py_int :: "string \<Rightarrow> error + int" where
  "py_int k =
     (if isdecimal k then Inr (foldl (\<lambda>acc ch. 10 * acc + digit_value ch) 0 k)
      else Inl ValueError)"

text \<open>The \<^verbatim>\<open>keyList\<close> of line 239: the one-character names \<^verbatim>\<open>'1'\<close> to \<^verbatim>\<open>'9'\<close>, then \<^verbatim>\<open>'0'\<close>.\<close>

definition digit_keys :: "string list" where
  "digit_keys = map (\<lambda>ch. [ch]) ''1234567890''"

text \<open>
  \<^verbatim>\<open>event.waitKeys(keyList=...)\<close> empties the event buffer, then blocks until a key of
  the list is pressed and returns it. \<open>pressed\<close> are the presses made while it blocks;
  if none of them is in the list it never returns (\<open>None\<close>). The second component is
  what stays in the event buffer: the presses it did not take.
  \<^verbatim>\<open>event.waitKeys()\<close> without a list returns at the first press.
\<close>

definition waitKeys :: "string list \<Rightarrow> string list \<Rightarrow> (string list \<times> string list) option" where
  "waitKeys keyList pressed =
     (case find (\<lambda>k. k \<in> set keyList) pressed of
        None \<Rightarrow> None
      | Some k \<Rightarrow> Some ([k], takeWhile (\<lambda>k. k \<notin> set keyList) pressed))"

definition waitKeys_any :: "string list \<Rightarrow> string list option" where
  "waitKeys_any pressed = (case pressed of [] \<Rightarrow> None | k # _ \<Rightarrow> Some [k])"

section \<open>The state of the script\<close>

text \<open>
  The global variables the block and trial loops mutate: the condition list, the six
  data collection lists, and the toolkit's event buffer. \<open>rnd_i\<close>, \<open>clock_i\<close> and
  \<open>trial_no\<close> are the cursors into the environment (calls made so far, trials started
  so far).
\<close>

record state =
  conditions :: "int list"
  block_n :: "nat list"
  trial_n :: "nat list"
  correct_response :: "int list"
  participant_response :: "int list"
  was_correct :: "bool list"
  rt_list :: "real list"
  key_buffer :: "string list"
  rnd_i :: nat
  clock_i :: nat
  trial_no :: nat

definition init_state :: state where
  "init_state =
     \<lparr>conditions = map int [1..<N_TRIALS + 1],
      block_n = [], trial_n = [], correct_response = [], participant_response = [],
      was_correct = [], rt_list = [],
      key_buffer = [], rnd_i = 0, clock_i = 0, trial_no = 0\<rparr>"

section \<open>Placing the circles\<close>

text \<open>
  The bounds handed to \<^verbatim>\<open>random.randint\<close>. \<^verbatim>\<open>-WINDOW_X/2\<close> is the float \<open>-300.0\<close>;
  the window sizes are even, so the division is exact and the bounds are whole numbers,
  which \<^verbatim>\<open>random.randint\<close> takes as such (a Python before 3.12; later ones reject floats).
\<close>

definition x_lo :: int where
  "x_lo = (- WINDOW_X) div 2 + CIRCLE_DIAMETER + WINDOW_PADDING + 1"

definition x_hi :: int where
  "x_hi = WINDOW_X div 2 - CIRCLE_DIAMETER - WINDOW_PADDING - 1"

definition y_lo :: int where
  "y_lo = (- WINDOW_Y) div 2 + CIRCLE_DIAMETER + WINDOW_PADDING + 1"

definition y_hi :: int where
  "y_hi = WINDOW_Y div 2 - CIRCLE_DIAMETER - WINDOW_PADDING - 1"

text \<open>The Euclidean distance of the script: \<^verbatim>\<open>((x - pos_x)**2 + (y - pos_y)**2)**(1/2)\<close>.\<close>

definition distance :: "int \<times> int \<Rightarrow> int \<times> int \<Rightarrow> real" where
  "distance p q = sqrt (real_of_int ((fst p - fst q)\<^sup>2 + (snd p - snd q)\<^sup>2))"

text \<open>
  The inner \<^verbatim>\<open>for pos_x, pos_y in valid_positions\<close> loop with its \<^verbatim>\<open>break\<close>: true when
  the candidate lies within a diameter of a position found before (\<^verbatim>\<open>valid = False\<close>).
\<close>

fun overlaps :: "int \<times> int \<Rightarrow> (int \<times> int) list \<Rightarrow> bool" where
  "overlaps p [] = False"
| "overlaps p (pos # rest) =
     (if distance p pos \<le> real_of_int CIRCLE_DIAMETER then True else overlaps p rest)"

text \<open>One pass of the \<^verbatim>\<open>while not valid\<close> loop draws \<open>x\<close>, then \<open>y\<close>.\<close>

definition candidate :: "(nat \<Rightarrow> nat) \<Rightarrow> nat \<Rightarrow> int \<times> int" where
  "candidate g c = (randint x_lo x_hi (g c), randint y_lo y_hi (g (c + 1)))"

text \<open>
  The \<^verbatim>\<open>while not valid\<close> loop: it has no bound, so it is a partial function and
  \<open>None\<close> stands for a loop that never ends.
\<close>

partial_function (option) find_position ::
  "(nat \<Rightarrow> nat) \<Rightarrow> nat \<Rightarrow> (int \<times> int) list \<Rightarrow> ((int \<times> int) \<times> nat) option" where
  "find_position g c valid_positions =
     (let p = candidate g c
      in if overlaps p valid_positions then find_position g (c + 2) valid_positions
         else Some (p, c + 2))"

text \<open>The \<^verbatim>\<open>for circle_i in range(n_circles)\<close> loop.\<close>

fun place_circles ::
  "nat \<Rightarrow> (nat \<Rightarrow> nat) \<Rightarrow> nat \<Rightarrow> (int \<times> int) list \<Rightarrow> ((int \<times> int) list \<times> nat) option" where
  "place_circles 0 g c valid_positions = Some (valid_positions, c)"
| "place_circles (Suc n) g c valid_positions =
     (case find_position g c valid_positions of
        None \<Rightarrow> None
      | Some (p, c') \<Rightarrow> place_circles n g c' (valid_positions @ [p]))"

section \<open>One trial\<close>

text \<open>
  \<^verbatim>\<open>event.clearEvents()\<close> empties the event buffer; \<^verbatim>\<open>core.wait\<close> lets time pass, and
  the keys pressed meanwhile are appended to the buffer.
\<close>

definition clearEvents :: "state \<Rightarrow> state" where
  "clearEvents s = s\<lparr>key_buffer := []\<rparr>"

definition press :: "string list \<Rightarrow> state \<Rightarrow> state" where
  "press ks s = s\<lparr>key_buffer := key_buffer s @ ks\<rparr>"

text \<open>
  The condition of line 238,
  \<^verbatim>\<open>not keys or not keys[0].isnumeric() or not 0 <= int(keys[0]) <= 9\<close>,
  with Python's left-to-right short circuit.
\<close>

definition needs_wait :: "string list \<Rightarrow> error + bool" where
  "needs_wait keys =
     (case keys of
        [] \<Rightarrow> Inr True
      | k # _ \<Rightarrow>
          if \<not> isnumeric k then Inr True
          else (case py_int k of
                  Inl e \<Rightarrow> Inl e
                | Inr v \<Rightarrow> Inr (\<not> (0 \<le> v \<and> v \<le> 9))))"

text \<open>
  Lines 234 to 241: read the clock, take the buffered keys with \<^verbatim>\<open>event.getKeys()\<close>
  (which empties the buffer), wait for a digit key if the first buffered key does not
  pass, read the clock again, and convert the first key. The result is \<open>(rt, response)\<close>
  and the new state.
\<close>

definition ask_response :: "env \<Rightarrow> state \<Rightarrow> (error + (real \<times> int) \<times> state) option" where
  "ask_response e s =
     (let time_asked = clock e (clock_i s);
          s1 = s\<lparr>clock_i := clock_i s + 1\<rparr>;
          keys = key_buffer s1;
          s2 = s1\<lparr>key_buffer := []\<rparr>
      in case needs_wait keys of
           Inl err \<Rightarrow> Some (Inl err)
         | Inr w \<Rightarrow>
             (case (if w then waitKeys digit_keys (wait_keys e (trial_no s)) else Some (keys, []))
              of None \<Rightarrow> None
               | Some (keys', buf) \<Rightarrow>
                   let rt = clock e (clock_i s2) - time_asked;
                       s3 = s2\<lparr>clock_i := clock_i s2 + 1, key_buffer := buf\<rparr>
                   in (case keys' of
                         [] \<Rightarrow> Some (Inl IndexError)
                       | k # _ \<Rightarrow>
                           (case py_int k of
                              Inl err \<Rightarrow> Some (Inl err)
                            | Inr response \<Rightarrow> Some (Inr ((rt, response), s3))))))"

text \<open>Lines 244 to 249: one element is appended to each of the six lists.\<close>

definition store_trial :: "nat \<Rightarrow> nat \<Rightarrow> int \<Rightarrow> int \<Rightarrow> real \<Rightarrow> state \<Rightarrow> state" where
  "store_trial block_i trial_i n_circles response rt s =
     s\<lparr>block_n := block_n s @ [block_i],
       trial_n := trial_n s @ [trial_i],
       correct_response := correct_response s @ [n_circles],
       participant_response := participant_response s @ [response],
       was_correct := was_correct s @ [n_circles = response],
       rt_list := rt_list s @ [rt]\<rparr>"

text \<open>
  The body of the trial loop (lines 182 to 249). Drawing on the window leaves no trace
  in the state. \<^verbatim>\<open>conditions[trial_i]\<close> raises \<^verbatim>\<open>IndexError\<close> out of range.
\<close>

definition run_trial :: "env \<Rightarrow> nat \<Rightarrow> nat \<Rightarrow> state \<Rightarrow> (error + state) option" where
  "run_trial e block_i trial_i s =
     (if \<not> trial_i < length (conditions s) then Some (Inl IndexError)
      else
        let n_circles = conditions s ! trial_i;
            s1 = press (fix_keys e (trial_no s)) s
        in case place_circles (nat n_circles) (rnd e) (rnd_i s1) [] of
             None \<Rightarrow> None
           | Some (valid_positions, c) \<Rightarrow>
               let s2 = clearEvents (s1\<lparr>rnd_i := c\<rparr>);
                   s3 = press (stim_keys e (trial_no s)) s2
               in (case ask_response e s3 of
                     None \<Rightarrow> None
                   | Some (Inl err) \<Rightarrow> Some (Inl err)
                   | Some (Inr ((rt, response), s4)) \<Rightarrow>
                       Some (Inr (store_trial block_i trial_i n_circles response rt
                                    (s4\<lparr>trial_no := trial_no s4 + 1\<rparr>)))))"

section \<open>Blocks and the whole session\<close>

text \<open>
  Sequencing: a step that never returns or that raises ends the run there; otherwise
  the rest of the run continues from the state the step reached.
\<close>

fun and_then ::
  "(error + 'a) option \<Rightarrow> ('a \<Rightarrow> (error + 'b) option) \<Rightarrow> (error + 'b) option" where
  "and_then None rest = None"
| "and_then (Some (Inl err)) rest = Some (Inl err)"
| "and_then (Some (Inr s)) rest = rest s"

text \<open>The \<^verbatim>\<open>for trial_i in range(N_TRIALS)\<close> loop, over the list of its indices.\<close>

fun run_trials :: "env \<Rightarrow> nat \<Rightarrow> nat list \<Rightarrow> state \<Rightarrow> (error + state) option" where
  "run_trials e block_i [] s = Some (Inr s)"
| "run_trials e block_i (trial_i # rest) s =
     and_then (run_trial e block_i trial_i s) (run_trials e block_i rest)"

text \<open>One block: shuffle the condition list in place, then run the trials.\<close>

definition run_block :: "env \<Rightarrow> nat \<Rightarrow> state \<Rightarrow> (error + state) option" where
  "run_block e block_i s =
     (case shuffle (rnd e) (rnd_i s) (conditions s) of
        (cs, c) \<Rightarrow> run_trials e block_i [0..<N_TRIALS] (s\<lparr>conditions := cs, rnd_i := c\<rparr>))"

text \<open>The \<^verbatim>\<open>for block_i in range(1, N_BLOCKS+1)\<close> loop.\<close>

fun run_blocks :: "env \<Rightarrow> nat list \<Rightarrow> state \<Rightarrow> (error + state) option" where
  "run_blocks e [] s = Some (Inr s)"
| "run_blocks e (block_i # rest) s = and_then (run_block e block_i s) (run_blocks e rest)"

text \<open>
  The session up to the closing of the window: wait for a key at the instructions, run
  the blocks, wait for a key at the final screen.
\<close>

definition session :: "env \<Rightarrow> (error + state) option" where
  "session e =
     (case waitKeys_any (start_keys e) of
        None \<Rightarrow> None
      | Some _ \<Rightarrow>
          (case run_blocks e [1..<N_BLOCKS + 1] init_state of
             None \<Rightarrow> None
           | Some (Inl err) \<Rightarrow> Some (Inl err)
           | Some (Inr s) \<Rightarrow>
               (case waitKeys_any (end_keys e) of None \<Rightarrow> None | Some _ \<Rightarrow> Some (Inr s))))"

section \<open>The results table and its summary\<close>

text \<open>
  A row of the data frame built by \<^verbatim>\<open>zip\<close> from the six lists (\<^verbatim>\<open>zip\<close> stops at the
  shortest list).
\<close>

record row =
  block :: nat
  trial :: nat
  n_objects_actual :: int
  n_objects_guessed :: int
  correct :: bool
  rt :: real

definition results :: "state \<Rightarrow> row list" where
  "results s =
     map (\<lambda>(b, t, a, g, c, r).
            \<lparr>block = b, trial = t, n_objects_actual = a, n_objects_guessed = g,
             correct = c, rt = r\<rparr>)
       (zip (block_n s) (zip (trial_n s) (zip (correct_response s)
          (zip (participant_response s) (zip (was_correct s) (rt_list s))))))"

text \<open>
  The mean of a pandas column is a float, and \<^verbatim>\<open>NaN\<close> on an empty column; a boolean
  counts as 1 or 0. \<^verbatim>\<open>groupby(key)[col].agg("mean")\<close> has one entry per key of the
  frame, in ascending order of the key, holding the mean of the column over the rows
  with that key.
\<close>

datatype number = NaN | Num real

definition mean :: "real list \<Rightarrow> number" where
  "mean xs = (if xs = [] then NaN else Num (sum_list xs / real (length xs)))"

definition as_float :: "bool \<Rightarrow> real" where
  "as_float b = (if b then 1 else 0)"

definition groupby_mean :: "(row \<Rightarrow> 'k::linorder) \<Rightarrow> (row \<Rightarrow> real) \<Rightarrow> row list \<Rightarrow> ('k \<times> number) list" where
  "groupby_mean key col rows =
     map (\<lambda>k. (k, mean (map col (filter (\<lambda>r. key r = k) rows))))
       (sort (remdups (map key rows)))"

text \<open>
  What lines 276 to 301 print, before formatting: the accuracies and response times
  per block, per number of circles, and overall.
\<close>

record summary =
  block_accuracy :: "(nat \<times> number) list"
  circles_accuracy :: "(int \<times> number) list"
  overall_accuracy :: number
  block_rt :: "(nat \<times> number) list"
  circles_rt :: "(int \<times> number) list"
  overall_rt :: number

definition summarise :: "row list \<Rightarrow> summary" where
  "summarise rows =
     \<lparr>block_accuracy = groupby_mean block (\<lambda>r. as_float (correct r)) rows,
      circles_accuracy = groupby_mean n_objects_actual (\<lambda>r. as_float (correct r)) rows,
      overall_accuracy = mean (map (\<lambda>r. as_float (correct r)) rows),
      block_rt = groupby_mean block rt rows,
      circles_rt = groupby_mean n_objects_actual rt rows,
      overall_rt = mean (map rt rows)\<rparr>"

section \<open>Notions used in the statements\<close>

text \<open>All six data collection lists have length \<open>n\<close>.\<close>

definition all_lengths :: "state \<Rightarrow> nat \<Rightarrow> bool" where
  "all_lengths s n \<longleftrightarrow>
     length (block_n s) = n \<and> length (trial_n s) = n \<and> length (correct_response s) = n \<and>
     length (participant_response s) = n \<and> length (was_correct s) = n \<and>
     length (rt_list s) = n"

text \<open>A run that came to its end without raising.\<close>

definition completed :: "(error + state) option \<Rightarrow> bool" where
  "completed r = (case r of Some (Inr s) \<Rightarrow> True | _ \<Rightarrow> False)"

text \<open>
  A sample environment: a participant who mostly answers \<^verbatim>\<open>'0'\<close> while the circles are
  still shown, once presses a letter first and once nothing, and then answers \<^verbatim>\<open>'7'\<close>
  at the prompt after a wrong key; the clock advances by a quarter of a second per reading.
\<close>

definition sample_env :: env where
  "sample_env =
     \<lparr>rnd = (\<lambda>c. nat ((37 * int c) mod 163)),
      clock = (\<lambda>i. real i / 4),
      start_keys = [''space''],
      fix_keys = (\<lambda>t. [''a'']),
      stim_keys = (\<lambda>t. if t = 3 then [''x''] else if t = 4 then [] else [''0'']),
      wait_keys = (\<lambda>t. [''q'', ''7'']),
      end_keys = [''return'']\<rparr>"

text \<open>
  The bound of the placeable interval as the specification words it: the half window
  inset by the margin and by half the minimum distance (the minimum distance is the
  circle diameter).
\<close>

definition spec_bound :: "int \<Rightarrow> int" where
  "spec_bound window = window div 2 - WINDOW_PADDING - CIRCLE_DIAMETER div 2"

text \<open>Rows used to exercise the summary.\<close>

definition sample_rows :: "row list" where
  "sample_rows =
     [\<lparr>block = 1, trial = 0, n_objects_actual = 3, n_objects_guessed = 3, correct = True,
       rt = 1 / 2\<rparr>,
      \<lparr>block = 1, trial = 1, n_objects_actual = 10, n_objects_guessed = 0, correct = False,
       rt = 1 / 4\<rparr>,
      \<lparr>block = 2, trial = 0, n_objects_actual = 3, n_objects_guessed = 3, correct = True,
       rt = 3 / 4\<rparr>]"

text \<open>
  Properties of a list of positions: every two of them, at different places of the
  list, lie further apart than \<open>d\<close>; all of them lie in the square \<open>[-m, m] \<times> [-m, m]\<close>.
\<close>

definition separated :: "real \<Rightarrow> (int \<times> int) list \<Rightarrow> bool" where
  "separated d ps \<longleftrightarrow>
     (\<forall>i < length ps. \<forall>j < length ps. i \<noteq> j \<longrightarrow> d < distance (ps ! i) (ps ! j))"

definition inside_square :: "int \<Rightarrow> (int \<times> int) list \<Rightarrow> bool" where
  "inside_square m ps \<longleftrightarrow> (\<forall>p \<in> set ps. - m \<le> fst p \<and> fst p \<le> m \<and> - m \<le> snd p \<and> snd p \<le> m)"

text \<open>
  A random source is fair from the cursor \<open>c\<close> when every point of the frame keeps
  coming up among the candidates drawn from \<open>c\<close> on. A uniform generator is fair with
  probability 1; a generator that repeats one point is not.
\<close>

definition fair_from :: "(nat \<Rightarrow> nat) \<Rightarrow> nat \<Rightarrow> bool" where
  "fair_from g c \<longleftrightarrow>
     (\<forall>x y k. x_lo \<le> x \<and> x \<le> x_hi \<and> y_lo \<le> y \<and> y \<le> y_hi \<longrightarrow>
        (\<exists>j \<ge> k. candidate g (c + 2 * j) = (x, y)))"

text \<open>
  Two sources: one that sweeps the frame row by row, again and again, and one whose
  every draw is the same number.
\<close>

definition sweeping_source :: "nat \<Rightarrow> nat" where
  "sweeping_source c = (if even c then (c div 2) mod 163 else ((c div 2) div 163) mod 163)"

definition stuck_source :: "nat \<Rightarrow> nat" where
  "stuck_source c = 81"

section \<open>Evaluation\<close>

text \<open>
  The comparison of the square root with the diameter is a comparison of whole numbers,
  which makes \<open>overlaps\<close> computable.
\<close>

lemma distance_le_iff:
  "distance p q \<le> real_of_int CIRCLE_DIAMETER \<longleftrightarrow>
     (fst p - fst q)\<^sup>2 + (snd p - snd q)\<^sup>2 \<le> CIRCLE_DIAMETER\<^sup>2"
proof -
  let ?s = "(fst p - fst q)\<^sup>2 + (snd p - snd q)\<^sup>2"
  have d: "0 \<le> real_of_int CIRCLE_DIAMETER"
    by (simp add: CIRCLE_DIAMETER_def CIRCLE_RADIUS_def)
  have "sqrt (real_of_int ?s) \<le> real_of_int CIRCLE_DIAMETER \<longleftrightarrow>
        real_of_int ?s \<le> (real_of_int CIRCLE_DIAMETER)\<^sup>2"
    using d by (metis real_sqrt_le_iff real_sqrt_abs abs_of_nonneg)
  also have "\<dots> \<longleftrightarrow> ?s \<le> CIRCLE_DIAMETER\<^sup>2"
    by (metis of_int_le_iff of_int_power)
  finally show ?thesis by (simp add: distance_def)
qed

lemma overlaps_code [code]:
  "overlaps p [] = False"
  "overlaps p (pos # rest) =
     (if (fst p - fst pos)\<^sup>2 + (snd p - snd pos)\<^sup>2 \<le> CIRCLE_DIAMETER\<^sup>2 then True
      else overlaps p rest)"
  by (simp_all add: distance_le_iff)

declare find_position.simps [code]

lemma overlaps_iff: "overlaps p ps \<longleftrightarrow> (\<exists>q \<in> set ps. distance p q \<le> real_of_int CIRCLE_DIAMETER)"
  by (induction ps) auto

section \<open>Keys and the response prompt\<close>

lemma py_int_digit_keys:
  "k \<in> set digit_keys \<Longrightarrow> \<exists>v. py_int k = Inr v \<and> 0 \<le> v \<and> v \<le> 9"
  by (auto simp: digit_keys_def py_int_def isdecimal_def is_digit_def digit_value_def)

lemma needs_wait_cases:
  "needs_wait keys = Inr True \<or> needs_wait keys = Inl ValueError \<or>
   (\<exists>k rest v. keys = k # rest \<and> py_int k = Inr v \<and> 0 \<le> v \<and> v \<le> 9 \<and>
      needs_wait keys = Inr False)"
  by (cases keys) (auto simp: needs_wait_def py_int_def)

lemma needs_wait_digit:
  "k \<in> set digit_keys \<Longrightarrow> needs_wait (k # rest) = Inr False"
  by (auto simp: digit_keys_def needs_wait_def py_int_def isnumeric_def isdecimal_def
      is_numeric_char_def is_digit_def digit_value_def)

lemma waitKeys_Some:
  "waitKeys keyList pressed = Some (ks, buf) \<Longrightarrow> \<exists>k. ks = [k] \<and> k \<in> set keyList"
  by (auto simp: waitKeys_def find_Some_iff split: option.splits)

lemma ask_response_Inr:
  assumes "ask_response e s = Some (Inr ((t, r), s'))"
  shows "0 \<le> r \<and> r \<le> 9 \<and> t = clock e (clock_i s + 1) - clock e (clock_i s) \<and>
         (\<exists>buf. s' = s\<lparr>clock_i := clock_i s + 2, key_buffer := buf\<rparr>)"
proof -
  consider (wait) "needs_wait (key_buffer s) = Inr True"
    | (raise) "needs_wait (key_buffer s) = Inl ValueError"
    | (keep) k rest v where "key_buffer s = k # rest" "py_int k = Inr v" "0 \<le> v" "v \<le> 9"
        "needs_wait (key_buffer s) = Inr False"
    using needs_wait_cases [of "key_buffer s"] by blast
  then show ?thesis
  proof cases
    case wait
    with assms obtain ks buf where w: "waitKeys digit_keys (wait_keys e (trial_no s)) = Some (ks, buf)"
      by (auto simp: ask_response_def Let_def split: option.splits)
    then obtain k where k: "ks = [k]" "k \<in> set digit_keys"
      using waitKeys_Some by blast
    then obtain v where v: "py_int k = Inr v" "0 \<le> v" "v \<le> 9"
      using py_int_digit_keys by blast
    from assms wait w k v show ?thesis
      by (auto simp: ask_response_def Let_def)
  next
    case raise
    with assms show ?thesis
      by (simp add: ask_response_def Let_def)
  next
    case keep
    with assms show ?thesis
      by (auto simp: ask_response_def Let_def)
  qed
qed

section \<open>What one trial does to the state\<close>

lemma run_trial_Inr:
  assumes "run_trial e b t s = Some (Inr s')"
  shows "t < length (conditions s) \<and>
    (\<exists>r. 0 \<le> r \<and> r \<le> 9 \<and>
       block_n s' = block_n s @ [b] \<and>
       trial_n s' = trial_n s @ [t] \<and>
       correct_response s' = correct_response s @ [conditions s ! t] \<and>
       participant_response s' = participant_response s @ [r] \<and>
       was_correct s' = was_correct s @ [conditions s ! t = r] \<and>
       rt_list s' = rt_list s @ [clock e (clock_i s + 1) - clock e (clock_i s)]) \<and>
    conditions s' = conditions s \<and> clock_i s' = clock_i s + 2 \<and>
    trial_no s' = trial_no s + 1"
proof -
  from assms have t: "t < length (conditions s)"
    by (auto simp: run_trial_def split: if_splits)
  let ?s1 = "press (fix_keys e (trial_no s)) s"
  from assms t obtain vp c where
    p: "place_circles (nat (conditions s ! t)) (rnd e) (rnd_i ?s1) [] = Some (vp, c)"
    by (auto simp: run_trial_def Let_def split: option.splits)
  let ?s3 = "press (stim_keys e (trial_no s)) (clearEvents (?s1\<lparr>rnd_i := c\<rparr>))"
  from assms t p obtain rt r s4 where
    a: "ask_response e ?s3 = Some (Inr ((rt, r), s4))" and
    s': "s' = store_trial b t (conditions s ! t) r rt (s4\<lparr>trial_no := trial_no s4 + 1\<rparr>)"
    by (auto simp: run_trial_def Let_def split: option.splits sum.splits)
  from ask_response_Inr [OF a] obtain buf where
    r: "0 \<le> r" "r \<le> 9" and
    rt: "rt = clock e (clock_i ?s3 + 1) - clock e (clock_i ?s3)" and
    s4: "s4 = ?s3\<lparr>clock_i := clock_i ?s3 + 2, key_buffer := buf\<rparr>"
    by blast
  show ?thesis
    using t r by (simp add: s' s4 rt store_trial_def press_def clearEvents_def)
qed

lemma and_then_Inr:
  assumes "and_then x rest = Some (Inr s')"
  shows "\<exists>s1. x = Some (Inr s1) \<and> rest s1 = Some (Inr s')"
proof (cases x)
  case None
  with assms show ?thesis by simp
next
  case (Some y)
  with assms show ?thesis by (cases y) auto
qed

lemma run_trials_invariant:
  assumes step: "\<And>t s s'. run_trial e b t s = Some (Inr s') \<Longrightarrow> P s \<Longrightarrow> P s'"
  shows "run_trials e b ts s = Some (Inr s') \<Longrightarrow> P s \<Longrightarrow> P s'"
proof (induction ts arbitrary: s)
  case Nil
  then show ?case by simp
next
  case (Cons t ts)
  from Cons.prems(1) obtain s1 where
    "run_trial e b t s = Some (Inr s1)" "run_trials e b ts s1 = Some (Inr s')"
    using and_then_Inr by fastforce
  with Cons.IH Cons.prems(2) step show ?case by blast
qed

lemma run_block_invariant:
  assumes step: "\<And>b t s s'. run_trial e b t s = Some (Inr s') \<Longrightarrow> P s \<Longrightarrow> P s'"
    and shuf: "\<And>s cs c. P s \<Longrightarrow> P (s\<lparr>conditions := cs, rnd_i := c\<rparr>)"
    and run: "run_block e b s = Some (Inr s')" and s: "P s"
  shows "P s'"
proof -
  obtain cs c where sh: "shuffle (rnd e) (rnd_i s) (conditions s) = (cs, c)"
    by (cases "shuffle (rnd e) (rnd_i s) (conditions s)")
  with run have
    "run_trials e b [0..<N_TRIALS] (s\<lparr>conditions := cs, rnd_i := c\<rparr>) = Some (Inr s')"
    by (simp add: run_block_def)
  moreover have "P (s\<lparr>conditions := cs, rnd_i := c\<rparr>)"
    using s by (rule shuf)
  ultimately show ?thesis
    using run_trials_invariant [where P = P and e = e and b = b] step by blast
qed

lemma run_blocks_invariant:
  assumes step: "\<And>b t s s'. run_trial e b t s = Some (Inr s') \<Longrightarrow> P s \<Longrightarrow> P s'"
    and shuf: "\<And>s cs c. P s \<Longrightarrow> P (s\<lparr>conditions := cs, rnd_i := c\<rparr>)"
  shows "run_blocks e bs s = Some (Inr s') \<Longrightarrow> P s \<Longrightarrow> P s'"
proof (induction bs arbitrary: s)
  case Nil
  then show ?case by simp
next
  case (Cons b bs)
  from Cons.prems(1) obtain s1 where
    b: "run_block e b s = Some (Inr s1)" and bs: "run_blocks e bs s1 = Some (Inr s')"
    using and_then_Inr by fastforce
  have "P s1"
    using step shuf b Cons.prems(2) by (rule run_block_invariant)
  with Cons.IH bs show ?case by blast
qed

lemma session_run_blocks:
  "session e = Some (Inr s) \<Longrightarrow> run_blocks e [1..<N_BLOCKS + 1] init_state = Some (Inr s)"
  by (auto simp: session_def split: option.splits sum.splits)

lemma session_invariant:
  assumes step: "\<And>b t s s'. run_trial e b t s = Some (Inr s') \<Longrightarrow> P s \<Longrightarrow> P s'"
    and shuf: "\<And>s cs c. P s \<Longrightarrow> P (s\<lparr>conditions := cs, rnd_i := c\<rparr>)"
    and init: "P init_state"
    and run: "session e = Some (Inr s)"
  shows "P s"
proof -
  from run have "run_blocks e [1..<N_BLOCKS + 1] init_state = Some (Inr s)"
    by (rule session_run_blocks)
  then show ?thesis
    using run_blocks_invariant [where P = P and e = e] step shuf init by blast
qed

section \<open>The sample session\<close>

lemma sample_session_completed: "completed (session sample_env)"
  by code_simp

lemma sample_session: "\<exists>s. session sample_env = Some (Inr s)"
proof (cases "session sample_env")
  case None
  with sample_session_completed show ?thesis by (simp add: completed_def)
next
  case (Some r)
  with sample_session_completed show ?thesis by (cases r) (simp_all add: completed_def)
qed

lemma sample_clock_mono: "mono (clock sample_env)"
  by (rule monoI) (simp add: sample_env_def divide_right_mono)

lemma results_fields:
  assumes "r \<in> set (results s)"
  shows "n_objects_guessed r \<in> set (participant_response s)" and "rt r \<in> set (rt_list s)"
proof -
  from assms obtain b t a g c x where
    r: "r = \<lparr>block = b, trial = t, n_objects_actual = a, n_objects_guessed = g,
             correct = c, rt = x\<rparr>" and
    z: "(b, t, a, g, c, x) \<in> set (zip (block_n s) (zip (trial_n s) (zip (correct_response s)
          (zip (participant_response s) (zip (was_correct s) (rt_list s))))))"
    by (auto simp: results_def)
  from z have "(t, a, g, c, x) \<in> set (zip (trial_n s) (zip (correct_response s)
          (zip (participant_response s) (zip (was_correct s) (rt_list s)))))"
    by (rule set_zip_rightD)
  then have "(a, g, c, x) \<in> set (zip (correct_response s)
          (zip (participant_response s) (zip (was_correct s) (rt_list s))))"
    by (rule set_zip_rightD)
  then have g: "(g, c, x) \<in> set (zip (participant_response s) (zip (was_correct s) (rt_list s)))"
    by (rule set_zip_rightD)
  then show "n_objects_guessed r \<in> set (participant_response s)"
    using r by (auto dest: set_zip_leftD)
  from g have "(c, x) \<in> set (zip (was_correct s) (rt_list s))"
    by (rule set_zip_rightD)
  then show "rt r \<in> set (rt_list s)"
    using r by (auto dest: set_zip_rightD)
qed

section \<open>The response and its correctness\<close>

text \<open>
  C1. The claim: the captured digit key is remapped before the comparison (key \<^verbatim>\<open>'0'\<close>
  gives a reported count of 10), so that answering \<^verbatim>\<open>'0'\<close> on a trial with 10 circles
  is recorded as correct. The script converts the key with \<^verbatim>\<open>int(keys[0])\<close> and
  compares that number: on the trial with 10 circles (index 9 of the unshuffled condition
  list) answered with \<^verbatim>\<open>'0'\<close>, it stores the response 0 and \<^verbatim>\<open>correct = False\<close>.
\<close>

theorem zero_key_on_ten_circles:
  "map_option (map_sum id (\<lambda>s. (correct_response s, participant_response s, was_correct s)))
     (run_trial sample_env 1 9 init_state) = Some (Inr ([10], [0], [False]))"
  by code_simp

text \<open>
  C9. Every record of a session holds a participant response between 0 and 9; the
  value 10 is never stored.
\<close>

theorem stored_response_in_0_9:
  assumes "session e = Some (Inr s)"
  shows "\<forall>r \<in> set (results s).
           0 \<le> n_objects_guessed r \<and> n_objects_guessed r \<le> 9 \<and> n_objects_guessed r \<noteq> 10"
proof -
  let ?P = "\<lambda>s. \<forall>v \<in> set (participant_response s). 0 \<le> v \<and> v \<le> 9"
  have "?P s"
  proof (rule session_invariant [where P = ?P and e = e])
    fix b t s s'
    assume "run_trial e b t s = Some (Inr s')" and "?P s"
    then show "?P s'"
      using run_trial_Inr [of e b t s s'] by auto
  next
    show "?P init_state" by (simp add: init_state_def)
  qed (use assms in simp_all)
  then show ?thesis
    using results_fields(1) by fastforce
qed

theorem stored_response_in_0_9_witness:
  "\<exists>s. session sample_env = Some (Inr s) \<and>
     (\<forall>r \<in> set (results s).
        0 \<le> n_objects_guessed r \<and> n_objects_guessed r \<le> 9 \<and> n_objects_guessed r \<noteq> 10)"
  using sample_session stored_response_in_0_9 [of sample_env] by blast

section \<open>Response time\<close>

text \<open>
  C8. With a monotonic clock, the response time stored in every record of a session
  (the clock reading after the key was obtained minus the reading when the prompt was
  shown) is not negative.
\<close>

theorem response_time_nonnegative:
  assumes "mono (clock e)" and "session e = Some (Inr s)"
  shows "\<forall>r \<in> set (results s). 0 \<le> rt r"
proof -
  let ?P = "\<lambda>s. \<forall>v \<in> set (rt_list s). 0 \<le> v"
  have "?P s"
  proof (rule session_invariant [where P = ?P and e = e])
    fix b t s s'
    assume run: "run_trial e b t s = Some (Inr s')" and "?P s"
    moreover have "clock e (clock_i s) \<le> clock e (clock_i s + 1)"
      using assms(1) by (simp add: monoD)
    ultimately show "?P s'"
      using run_trial_Inr [of e b t s s'] by auto
  next
    show "?P init_state" by (simp add: init_state_def)
  qed (use assms in simp_all)
  then show ?thesis
    using results_fields(2) by fastforce
qed

theorem response_time_nonnegative_witness:
  "mono (clock sample_env) \<and>
   (\<exists>s. session sample_env = Some (Inr s) \<and> (\<forall>r \<in> set (results s). 0 \<le> rt r))"
  using sample_clock_mono sample_session
    response_time_nonnegative [of sample_env, OF sample_clock_mono] by blast

section \<open>The six lists grow together\<close>

text \<open>
  C10. The six lists are empty at the start, and every completed trial appends exactly
  one element to each of them: if all six have the length \<open>n\<close> before the trial, all six
  have the length \<open>n + 1\<close> after it. The number of completed trials is counted by
  \<open>trial_no\<close>, so the common length is that number after every trial.
\<close>

theorem lists_grow_together:
  "all_lengths init_state 0 \<and> trial_no init_state = 0 \<and>
   (run_trial e b t s = Some (Inr s') \<longrightarrow> all_lengths s n \<longrightarrow>
      all_lengths s' (Suc n) \<and> trial_no s' = Suc (trial_no s) \<and>
      butlast (block_n s') = block_n s \<and> butlast (trial_n s') = trial_n s \<and>
      butlast (correct_response s') = correct_response s \<and>
      butlast (participant_response s') = participant_response s \<and>
      butlast (was_correct s') = was_correct s \<and> butlast (rt_list s') = rt_list s)"
proof -
  have "all_lengths init_state 0 \<and> trial_no init_state = 0"
    by (simp add: all_lengths_def init_state_def)
  moreover have "all_lengths s' (Suc n) \<and> trial_no s' = Suc (trial_no s) \<and>
      butlast (block_n s') = block_n s \<and> butlast (trial_n s') = trial_n s \<and>
      butlast (correct_response s') = correct_response s \<and>
      butlast (participant_response s') = participant_response s \<and>
      butlast (was_correct s') = was_correct s \<and> butlast (rt_list s') = rt_list s"
    if "run_trial e b t s = Some (Inr s')" and "all_lengths s n"
    using run_trial_Inr [OF that(1)] that(2) by (auto simp: all_lengths_def)
  ultimately show ?thesis by blast
qed

theorem lists_grow_together_witness:
  "\<exists>s'. run_trial sample_env 1 2 init_state = Some (Inr s') \<and> all_lengths init_state 0 \<and>
     all_lengths s' (Suc 0) \<and> trial_no s' = Suc (trial_no init_state)"
proof -
  have "completed (run_trial sample_env 1 2 init_state)"
    by code_simp
  then obtain s' where "run_trial sample_env 1 2 init_state = Some (Inr s')"
    by (auto simp: completed_def split: option.splits sum.splits)
  then show ?thesis
    using lists_grow_together [of sample_env 1 2 init_state s' 0] by blast
qed

section \<open>Blocks\<close>

lemma shuffle_loop_mset:
  "i < length x \<Longrightarrow> mset (fst (shuffle_loop i g c x)) = mset x"
proof (induction i arbitrary: c x)
  case 0
  then show ?case by simp
next
  case (Suc i)
  let ?j = "randbelow (Suc i + 1) (g c)"
  have j: "?j < length x"
    using Suc.prems by (simp add: randbelow_def) (metis Suc_lessD less_Suc_eq_le
      less_le_trans mod_less_divisor not_less zero_less_Suc)
  have "mset (x[Suc i := x ! ?j, ?j := x ! Suc i]) = mset x"
    using Suc.prems j by (simp add: mset_swap)
  moreover have "i < length (x[Suc i := x ! ?j, ?j := x ! Suc i])"
    using Suc.prems by simp
  ultimately show ?case
    using Suc.IH [of "x[Suc i := x ! ?j, ?j := x ! Suc i]" "c + 1"] by (simp add: Let_def)
qed

lemma shuffle_mset: "mset (fst (shuffle g c x)) = mset x"
proof (cases x)
  case Nil
  then show ?thesis by (simp add: shuffle_def)
next
  case (Cons a as)
  then show ?thesis by (simp add: shuffle_def shuffle_loop_mset)
qed

lemma run_trials_Inr:
  "run_trials e b ts s = Some (Inr s') \<Longrightarrow>
     (\<forall>t \<in> set ts. t < length (conditions s)) \<and> conditions s' = conditions s \<and>
     block_n s' = block_n s @ replicate (length ts) b \<and>
     trial_n s' = trial_n s @ ts \<and>
     correct_response s' = correct_response s @ map (\<lambda>t. conditions s ! t) ts \<and>
     length (participant_response s') = length (participant_response s) + length ts \<and>
     length (was_correct s') = length (was_correct s) + length ts \<and>
     length (rt_list s') = length (rt_list s) + length ts"
proof (induction ts arbitrary: s)
  case Nil
  then show ?case by simp
next
  case (Cons t ts)
  from Cons.prems obtain s1 where
    t: "run_trial e b t s = Some (Inr s1)" and ts: "run_trials e b ts s1 = Some (Inr s')"
    using and_then_Inr by fastforce
  from run_trial_Inr [OF t] Cons.IH [OF ts] show ?case
    by (auto simp: replicate_app_Cons_same)
qed

lemma run_block_Inr:
  assumes run: "run_block e b s = Some (Inr s')" and len: "length (conditions s) = N_TRIALS"
  shows "mset (conditions s') = mset (conditions s) \<and>
     block_n s' = block_n s @ replicate N_TRIALS b \<and>
     trial_n s' = trial_n s @ [0..<N_TRIALS] \<and>
     correct_response s' = correct_response s @ conditions s' \<and>
     length (participant_response s') = length (participant_response s) + N_TRIALS \<and>
     length (was_correct s') = length (was_correct s) + N_TRIALS \<and>
     length (rt_list s') = length (rt_list s) + N_TRIALS"
proof -
  obtain cs c where sh: "shuffle (rnd e) (rnd_i s) (conditions s) = (cs, c)"
    by (cases "shuffle (rnd e) (rnd_i s) (conditions s)")
  then have cs: "mset cs = mset (conditions s)"
    using shuffle_mset [of "rnd e" "rnd_i s" "conditions s"] by simp
  then have l: "length cs = N_TRIALS"
    using len by (metis size_mset)
  from run sh have
    "run_trials e b [0..<N_TRIALS] (s\<lparr>conditions := cs, rnd_i := c\<rparr>) = Some (Inr s')"
    by (simp add: run_block_def)
  from run_trials_Inr [OF this] have
    "conditions s' = cs" "block_n s' = block_n s @ replicate N_TRIALS b"
    "trial_n s' = trial_n s @ [0..<N_TRIALS]"
    "correct_response s' = correct_response s @ map (\<lambda>t. cs ! t) [0..<N_TRIALS]"
    "length (participant_response s') = length (participant_response s) + N_TRIALS"
    "length (was_correct s') = length (was_correct s) + N_TRIALS"
    "length (rt_list s') = length (rt_list s) + N_TRIALS"
    by simp_all
  moreover have "map (\<lambda>t. cs ! t) [0..<N_TRIALS] = cs"
    using l map_nth [of cs] by simp
  ultimately show ?thesis
    using cs by simp
qed

lemma results_columns:
  assumes "all_lengths s n"
  shows "length (results s) = n" and "map block (results s) = block_n s"
    and "map n_objects_actual (results s) = correct_response s"
  using assms by (auto simp: results_def all_lengths_def intro!: nth_equalityI)

lemma session_blocks:
  assumes "session e = Some (Inr s)"
  shows "\<exists>c1 c2 c3.
     mset c1 = mset (map int [1..<N_TRIALS + 1]) \<and>
     mset c2 = mset (map int [1..<N_TRIALS + 1]) \<and>
     mset c3 = mset (map int [1..<N_TRIALS + 1]) \<and>
     correct_response s = c1 @ c2 @ c3 \<and>
     block_n s = replicate N_TRIALS 1 @ replicate N_TRIALS 2 @ replicate N_TRIALS 3 \<and>
     trial_n s = [0..<N_TRIALS] @ [0..<N_TRIALS] @ [0..<N_TRIALS] \<and>
     all_lengths s (N_BLOCKS * N_TRIALS)"
proof -
  have bs: "[1..<N_BLOCKS + 1] = [1, 2, 3]"
    by (simp add: N_BLOCKS_def upt_rec)
  from assms have "run_blocks e [1, 2, 3] init_state = Some (Inr s)"
    using session_run_blocks bs by metis
  then obtain s1 s2 where
    r1: "run_block e 1 init_state = Some (Inr s1)" and
    r2: "run_block e 2 s1 = Some (Inr s2)" and
    r3: "run_block e 3 s2 = Some (Inr s)"
    by (fastforce dest!: and_then_Inr)
  have l0: "length (conditions init_state) = N_TRIALS"
    by (simp add: init_state_def)
  note b1 = run_block_Inr [OF r1 l0]
  from b1 have l1: "length (conditions s1) = N_TRIALS"
    using l0 by (metis size_mset)
  note b2 = run_block_Inr [OF r2 l1]
  from b2 have l2: "length (conditions s2) = N_TRIALS"
    using l1 by (metis size_mset)
  note b3 = run_block_Inr [OF r3 l2]
  have i: "conditions init_state = map int [1..<N_TRIALS + 1]" "block_n init_state = []"
    "trial_n init_state = []" "correct_response init_state = []"
    "participant_response init_state = []" "was_correct init_state = []"
    "rt_list init_state = []"
    by (simp_all add: init_state_def)
  have "mset (conditions s1) = mset (map int [1..<N_TRIALS + 1])"
    "mset (conditions s2) = mset (map int [1..<N_TRIALS + 1])"
    "mset (conditions s) = mset (map int [1..<N_TRIALS + 1])"
    using b1 b2 b3 i(1) by simp_all
  moreover have "correct_response s = conditions s1 @ conditions s2 @ conditions s"
    using b1 b2 b3 i by simp
  moreover have
    "block_n s = replicate N_TRIALS 1 @ replicate N_TRIALS 2 @ replicate N_TRIALS 3"
    "trial_n s = [0..<N_TRIALS] @ [0..<N_TRIALS] @ [0..<N_TRIALS]"
    using b1 b2 b3 i by simp_all
  moreover have "all_lengths s (N_BLOCKS * N_TRIALS)"
    using b1 b2 b3 i l1 l2 l0
    by (simp add: all_lengths_def N_BLOCKS_def) (metis size_mset)
  ultimately show ?thesis by blast
qed

text \<open>
  C3. In a session, every block \<open>b\<close> of \<open>1..N_BLOCKS\<close> appends exactly \<open>N_TRIALS\<close>
  records (the rows \<open>(b - 1) * N_TRIALS\<close> onwards); each is tagged with \<open>b\<close>, and their
  condition values are a permutation of \<open>1..N_TRIALS\<close>, without duplicates. The same set
  thus recurs in every block.
\<close>

theorem block_records:
  assumes "session e = Some (Inr s)" and "b \<in> {1..N_BLOCKS}"
  shows "length (results s) = N_BLOCKS * N_TRIALS \<and>
    (let rows = take N_TRIALS (drop ((b - 1) * N_TRIALS) (results s))
     in length rows = N_TRIALS \<and>
        map block rows = replicate N_TRIALS b \<and>
        mset (map n_objects_actual rows) = mset (map int [1..<N_TRIALS + 1]) \<and>
        distinct (map n_objects_actual rows) \<and>
        map trial rows = [0..<N_TRIALS])"
proof -
  from session_blocks [OF assms(1)] obtain c1 c2 c3 where
    c: "mset c1 = mset (map int [1..<N_TRIALS + 1])"
       "mset c2 = mset (map int [1..<N_TRIALS + 1])"
       "mset c3 = mset (map int [1..<N_TRIALS + 1])" and
    cr: "correct_response s = c1 @ c2 @ c3" and
    bn: "block_n s = replicate N_TRIALS 1 @ replicate N_TRIALS 2 @ replicate N_TRIALS 3" and
    tn: "trial_n s = [0..<N_TRIALS] @ [0..<N_TRIALS] @ [0..<N_TRIALS]" and
    al: "all_lengths s (N_BLOCKS * N_TRIALS)"
    by blast
  have lc: "length c1 = N_TRIALS" "length c2 = N_TRIALS" "length c3 = N_TRIALS"
    using c by (metis length_map length_upt size_mset add_diff_cancel_right')+
  have d: "distinct (map int [1..<N_TRIALS + 1])"
    by (simp add: distinct_map)
  have dc: "distinct c1" "distinct c2" "distinct c3"
    using c d by (metis mset_eq_imp_distinct_iff)+
  let ?rows = "take N_TRIALS (drop ((b - 1) * N_TRIALS) (results s))"
  have len: "length (results s) = N_BLOCKS * N_TRIALS"
    using results_columns(1) [OF al] .
  have cols: "map block (results s) = block_n s"
    "map n_objects_actual (results s) = correct_response s"
    using results_columns [OF al] by simp_all
  have colt: "map trial (results s) = trial_n s"
    using al by (auto simp: results_def all_lengths_def intro!: nth_equalityI)
  have mb: "map block ?rows = take N_TRIALS (drop ((b - 1) * N_TRIALS) (block_n s))"
    unfolding cols(1) [symmetric] by (simp only: take_map drop_map)
  have ma: "map n_objects_actual ?rows =
      take N_TRIALS (drop ((b - 1) * N_TRIALS) (correct_response s))"
    unfolding cols(2) [symmetric] by (simp only: take_map drop_map)
  have mt: "map trial ?rows = take N_TRIALS (drop ((b - 1) * N_TRIALS) (trial_n s))"
    unfolding colt [symmetric] by (simp only: take_map drop_map)
  from assms(2) have "b = 1 \<or> b = 2 \<or> b = 3"
    by (auto simp: N_BLOCKS_def)
  then consider "b = 1" | "b = 2" | "b = 3"
    by blast
  then have "length ?rows = N_TRIALS \<and> map block ?rows = replicate N_TRIALS b \<and>
      mset (map n_objects_actual ?rows) = mset (map int [1..<N_TRIALS + 1]) \<and>
      distinct (map n_objects_actual ?rows) \<and> map trial ?rows = [0..<N_TRIALS]"
  proof cases
    case 1
    then show ?thesis
      unfolding mb ma mt using c dc lc by (simp add: len bn cr tn N_BLOCKS_def)
  next
    case 2
    then show ?thesis
      unfolding mb ma mt using c dc lc by (simp add: len bn cr tn N_BLOCKS_def)
  next
    case 3
    then show ?thesis
      unfolding mb ma mt using c dc lc by (simp add: len bn cr tn N_BLOCKS_def)
  qed
  with len show ?thesis by (simp add: Let_def)
qed

theorem block_records_witness:
  "(2::nat) \<in> {1..N_BLOCKS} \<and>
   (\<exists>s. session sample_env = Some (Inr s) \<and> length (results s) = N_BLOCKS * N_TRIALS \<and>
      (let rows = take N_TRIALS (drop ((2 - 1) * N_TRIALS) (results s))
       in length rows = N_TRIALS \<and>
          map block rows = replicate N_TRIALS 2 \<and>
          mset (map n_objects_actual rows) = mset (map int [1..<N_TRIALS + 1]) \<and>
          distinct (map n_objects_actual rows) \<and>
          map trial rows = [0..<N_TRIALS]))"
proof -
  have b: "(2::nat) \<in> {1..N_BLOCKS}"
    by (simp add: N_BLOCKS_def)
  from sample_session obtain s where s: "session sample_env = Some (Inr s)" ..
  from block_records [OF s b] b s show ?thesis by blast
qed

section \<open>The response prompt\<close>

lemma needs_wait_True:
  assumes "keys = [] \<or> (\<exists>k rest. keys = k # rest \<and>
             (\<not> isnumeric k \<or> (\<exists>v. py_int k = Inr v \<and> \<not> (0 \<le> v \<and> v \<le> 9))))"
  shows "needs_wait keys = Inr True"
  using assms by (auto simp: needs_wait_def)

lemma ask_response_keep:
  assumes "key_buffer s = k # rest" and "k \<in> set digit_keys" and "py_int k = Inr v"
  shows "ask_response e s =
     Some (Inr ((clock e (clock_i s + 1) - clock e (clock_i s), v),
                s\<lparr>key_buffer := [], clock_i := clock_i s + 2\<rparr>))"
  using assms by (simp add: ask_response_def Let_def needs_wait_digit)

lemma ask_response_blocked:
  assumes "needs_wait (key_buffer s) = Inr True"
    and "find (\<lambda>k. k \<in> set digit_keys) (wait_keys e (trial_no s)) = None"
  shows "ask_response e s = None"
  using assms by (simp add: ask_response_def Let_def waitKeys_def)

lemma ask_response_waited:
  assumes "needs_wait (key_buffer s) = Inr True"
    and "find (\<lambda>k. k \<in> set digit_keys) (wait_keys e (trial_no s)) = Some k"
    and "py_int k = Inr v"
  shows "ask_response e s =
     Some (Inr ((clock e (clock_i s + 1) - clock e (clock_i s), v),
                s\<lparr>key_buffer := takeWhile (\<lambda>k. k \<notin> set digit_keys) (wait_keys e (trial_no s)),
                  clock_i := clock_i s + 2\<rparr>))"
  using assms by (simp add: ask_response_def Let_def waitKeys_def)

lemma ask_response_fix_keys: "ask_response (e\<lparr>fix_keys := f\<rparr>) s = ask_response e s"
  by (simp add: ask_response_def Let_def cong: sum.case_cong option.case_cong if_cong)

lemma run_trial_placed:
  assumes "t < length (conditions s)"
    and "place_circles (nat (conditions s ! t)) (rnd e) (rnd_i s) [] = Some (vp, c)"
  shows "run_trial e b t s =
     (case ask_response e (s\<lparr>rnd_i := c, key_buffer := stim_keys e (trial_no s)\<rparr>) of
        None \<Rightarrow> None
      | Some (Inl err) \<Rightarrow> Some (Inl err)
      | Some (Inr ((dur, response), s4)) \<Rightarrow>
          Some (Inr (store_trial b t (conditions s ! t) response dur
                       (s4\<lparr>trial_no := trial_no s4 + 1\<rparr>))))"
  using assms by (simp add: run_trial_def Let_def press_def clearEvents_def)

text \<open>
  The response prompt of a trial whose circles have been placed, on the keys the
  condition of line 238 decides without raising:
  \<^item> the keys pressed during the fixation phase, and whatever the event buffer held
    before, do not reach the prompt: the trial is the same without them;
  \<^item> if the first key buffered while the circles were shown is one of the digit keys,
    it is the response, and nothing pressed later matters (no waiting);
  \<^item> if nothing was buffered, or the first buffered key is not numeric or is a decimal
    number outside 0..9, the buffered keys are dropped and the response is the first
    digit key pressed afterwards; without such a key the trial never ends.
\<close>

lemma response_prompt:
  assumes "t < length (conditions s)"
    and "place_circles (nat (conditions s ! t)) (rnd e) (rnd_i s) [] = Some (vp, c)"
  shows "run_trial (e\<lparr>fix_keys := f\<rparr>) b t (s\<lparr>key_buffer := buf\<rparr>) = run_trial e b t s \<and>
    (\<forall>k rest. stim_keys e (trial_no s) = k # rest \<and> k \<in> set digit_keys \<longrightarrow>
       (\<exists>v. py_int k = Inr v \<and>
          run_trial e b t s =
            Some (Inr (store_trial b t (conditions s ! t) v
                         (clock e (clock_i s + 1) - clock e (clock_i s))
                         (s\<lparr>rnd_i := c, key_buffer := [], clock_i := clock_i s + 2,
                            trial_no := trial_no s + 1\<rparr>))) \<and>
          (\<forall>w. run_trial (e\<lparr>wait_keys := w\<rparr>) b t s = run_trial e b t s))) \<and>
    (stim_keys e (trial_no s) = [] \<or>
     (\<exists>k rest. stim_keys e (trial_no s) = k # rest \<and>
        (\<not> isnumeric k \<or> (\<exists>v. py_int k = Inr v \<and> \<not> (0 \<le> v \<and> v \<le> 9)))) \<longrightarrow>
       (case find (\<lambda>k. k \<in> set digit_keys) (wait_keys e (trial_no s)) of
          None \<Rightarrow> run_trial e b t s = None
        | Some k \<Rightarrow>
            (\<exists>v. py_int k = Inr v \<and>
               run_trial e b t s =
                 Some (Inr (store_trial b t (conditions s ! t) v
                              (clock e (clock_i s + 1) - clock e (clock_i s))
                              (s\<lparr>rnd_i := c,
                                 key_buffer :=
                                   takeWhile (\<lambda>k. k \<notin> set digit_keys) (wait_keys e (trial_no s)),
                                 clock_i := clock_i s + 2,
                                 trial_no := trial_no s + 1\<rparr>))))))"
proof (intro conjI allI impI)
  show "run_trial (e\<lparr>fix_keys := f\<rparr>) b t (s\<lparr>key_buffer := buf\<rparr>) = run_trial e b t s"
    by (simp add: run_trial_def Let_def press_def clearEvents_def ask_response_fix_keys
        cong: option.case_cong)
next
  fix k rest
  assume k: "stim_keys e (trial_no s) = k # rest \<and> k \<in> set digit_keys"
  then obtain v where v: "py_int k = Inr v"
    using py_int_digit_keys by blast
  let ?s3 = "s\<lparr>rnd_i := c, key_buffer := stim_keys e (trial_no s)\<rparr>"
  have a: "ask_response e' ?s3 =
     Some (Inr ((clock e' (clock_i ?s3 + 1) - clock e' (clock_i ?s3), v),
                ?s3\<lparr>key_buffer := [], clock_i := clock_i ?s3 + 2\<rparr>))" for e'
    using k v by (intro ask_response_keep [where rest = rest]) simp_all
  have r: "run_trial e b t s =
      Some (Inr (store_trial b t (conditions s ! t) v
                   (clock e (clock_i s + 1) - clock e (clock_i s))
                   (s\<lparr>rnd_i := c, key_buffer := [], clock_i := clock_i s + 2,
                      trial_no := trial_no s + 1\<rparr>)))"
    using run_trial_placed [OF assms, of b] a [of e] by simp
  have "run_trial (e\<lparr>wait_keys := w\<rparr>) b t s = run_trial e b t s" for w
  proof -
    have "place_circles (nat (conditions s ! t)) (rnd (e\<lparr>wait_keys := w\<rparr>)) (rnd_i s) [] =
        Some (vp, c)"
      using assms(2) by simp
    from run_trial_placed [OF assms(1) this, of b] a [of "e\<lparr>wait_keys := w\<rparr>"] k r
    show ?thesis by simp
  qed
  with v r show "\<exists>v. py_int k = Inr v \<and>
          run_trial e b t s =
            Some (Inr (store_trial b t (conditions s ! t) v
                         (clock e (clock_i s + 1) - clock e (clock_i s))
                         (s\<lparr>rnd_i := c, key_buffer := [], clock_i := clock_i s + 2,
                            trial_no := trial_no s + 1\<rparr>))) \<and>
          (\<forall>w. run_trial (e\<lparr>wait_keys := w\<rparr>) b t s = run_trial e b t s)"
    by blast
next
  assume g: "stim_keys e (trial_no s) = [] \<or>
     (\<exists>k rest. stim_keys e (trial_no s) = k # rest \<and>
        (\<not> isnumeric k \<or> (\<exists>v. py_int k = Inr v \<and> \<not> (0 \<le> v \<and> v \<le> 9))))"
  let ?s3 = "s\<lparr>rnd_i := c, key_buffer := stim_keys e (trial_no s)\<rparr>"
  have w: "needs_wait (key_buffer ?s3) = Inr True"
    using needs_wait_True [OF g] by simp
  show "case find (\<lambda>k. k \<in> set digit_keys) (wait_keys e (trial_no s)) of
          None \<Rightarrow> run_trial e b t s = None
        | Some k \<Rightarrow>
            (\<exists>v. py_int k = Inr v \<and>
               run_trial e b t s =
                 Some (Inr (store_trial b t (conditions s ! t) v
                              (clock e (clock_i s + 1) - clock e (clock_i s))
                              (s\<lparr>rnd_i := c,
                                 key_buffer :=
                                   takeWhile (\<lambda>k. k \<notin> set digit_keys) (wait_keys e (trial_no s)),
                                 clock_i := clock_i s + 2,
                                 trial_no := trial_no s + 1\<rparr>))))"
  proof (cases "find (\<lambda>k. k \<in> set digit_keys) (wait_keys e (trial_no s))")
    case None
    then have "ask_response e ?s3 = None"
      using w by (intro ask_response_blocked) simp_all
    with None show ?thesis
      using run_trial_placed [OF assms, of b] by simp
  next
    case (Some k)
    then have "k \<in> set digit_keys"
      by (auto simp: find_Some_iff)
    then obtain v where v: "py_int k = Inr v"
      using py_int_digit_keys by blast
    have "ask_response e ?s3 =
       Some (Inr ((clock e (clock_i ?s3 + 1) - clock e (clock_i ?s3), v),
                ?s3\<lparr>key_buffer :=
                       takeWhile (\<lambda>k. k \<notin> set digit_keys) (wait_keys e (trial_no ?s3)),
                     clock_i := clock_i ?s3 + 2\<rparr>))"
      using w Some v by (intro ask_response_waited) simp_all
    with Some v show ?thesis
      using run_trial_placed [OF assms, of b] by simp
  qed
qed

lemma response_prompt_example:
  "run_trial (sample_env\<lparr>fix_keys := (\<lambda>t. [''5''])\<rparr>) 1 2 (init_state\<lparr>key_buffer := [''9'']\<rparr>) =
     run_trial sample_env 1 2 init_state \<and>
   run_trial sample_env 1 2 init_state =
     Some (Inr (store_trial 1 2 (conditions init_state ! 2) 0
                  (clock sample_env (clock_i init_state + 1) - clock sample_env (clock_i init_state))
                  (init_state\<lparr>rnd_i := 6, key_buffer := [], clock_i := clock_i init_state + 2,
                     trial_no := trial_no init_state + 1\<rparr>))) \<and>
   run_trial sample_env 1 2 (init_state\<lparr>trial_no := 3\<rparr>) =
     Some (Inr (store_trial 1 2 (conditions init_state ! 2) 7
                  (clock sample_env (clock_i init_state + 1) - clock sample_env (clock_i init_state))
                  (init_state\<lparr>trial_no := 3, rnd_i := 6, key_buffer := [''q''],
                     clock_i := clock_i init_state + 2, trial_no := 3 + 1\<rparr>)))"
proof -
  let ?s = "init_state\<lparr>trial_no := 3\<rparr>"
  have t: "2 < length (conditions init_state)" "2 < length (conditions ?s)"
    by (simp_all add: init_state_def N_TRIALS_def)
  have p: "place_circles (nat (conditions init_state ! 2)) (rnd sample_env) (rnd_i init_state) [] =
      Some ([(- 81, - 44), (- 7, 30), (67, - 59)], 6)"
    by code_simp
  have p': "place_circles (nat (conditions ?s ! 2)) (rnd sample_env) (rnd_i ?s) [] =
      Some ([(- 81, - 44), (- 7, 30), (67, - 59)], 6)"
    using p by simp
  note first = response_prompt [OF t(1) p, of "\<lambda>t. [''5'']" 1 "[''9'']"]
  note second = response_prompt [OF t(2) p', of "\<lambda>t. [''5'']" 1 "[''9'']"]
  have k0: "stim_keys sample_env (trial_no init_state) = ''0'' # [] \<and> ''0'' \<in> set digit_keys"
    by (simp add: sample_env_def init_state_def digit_keys_def)
  have v0: "py_int ''0'' = Inr 0" and v7: "py_int ''7'' = Inr 7"
    by (simp_all add: py_int_def isdecimal_def is_digit_def digit_value_def)
  have a: "run_trial (sample_env\<lparr>fix_keys := (\<lambda>t. [''5''])\<rparr>) 1 2 (init_state\<lparr>key_buffer := [''9'']\<rparr>) =
     run_trial sample_env 1 2 init_state"
    using first by blast
  from first k0 obtain v where
    "py_int ''0'' = Inr v"
    "run_trial sample_env 1 2 init_state =
       Some (Inr (store_trial 1 2 (conditions init_state ! 2) v
                  (clock sample_env (clock_i init_state + 1) - clock sample_env (clock_i init_state))
                  (init_state\<lparr>rnd_i := 6, key_buffer := [], clock_i := clock_i init_state + 2,
                     trial_no := trial_no init_state + 1\<rparr>)))"
    by blast
  with v0 have b: "run_trial sample_env 1 2 init_state =
       Some (Inr (store_trial 1 2 (conditions init_state ! 2) 0
                  (clock sample_env (clock_i init_state + 1) - clock sample_env (clock_i init_state))
                  (init_state\<lparr>rnd_i := 6, key_buffer := [], clock_i := clock_i init_state + 2,
                     trial_no := trial_no init_state + 1\<rparr>)))"
    by simp
  have g: "stim_keys sample_env (trial_no ?s) = [] \<or>
     (\<exists>k rest. stim_keys sample_env (trial_no ?s) = k # rest \<and>
        (\<not> isnumeric k \<or> (\<exists>v. py_int k = Inr v \<and> \<not> (0 \<le> v \<and> v \<le> 9))))"
    by (simp add: sample_env_def isnumeric_def is_numeric_char_def is_digit_def)
  have f: "find (\<lambda>k. k \<in> set digit_keys) (wait_keys sample_env (trial_no ?s)) = Some ''7''"
    by (simp add: sample_env_def digit_keys_def)
  have w: "takeWhile (\<lambda>k. k \<notin> set digit_keys) (wait_keys sample_env (trial_no ?s)) = [''q'']"
    by (simp add: sample_env_def digit_keys_def)
  from second g have "case find (\<lambda>k. k \<in> set digit_keys) (wait_keys sample_env (trial_no ?s)) of
          None \<Rightarrow> run_trial sample_env 1 2 ?s = None
        | Some k \<Rightarrow>
            (\<exists>v. py_int k = Inr v \<and>
               run_trial sample_env 1 2 ?s =
                 Some (Inr (store_trial 1 2 (conditions ?s ! 2) v
                              (clock sample_env (clock_i ?s + 1) - clock sample_env (clock_i ?s))
                              (?s\<lparr>rnd_i := 6,
                                 key_buffer :=
                                   takeWhile (\<lambda>k. k \<notin> set digit_keys)
                                     (wait_keys sample_env (trial_no ?s)),
                                 clock_i := clock_i ?s + 2,
                                 trial_no := trial_no ?s + 1\<rparr>))))"
    by blast
  with f w v7 have c: "run_trial sample_env 1 2 ?s =
     Some (Inr (store_trial 1 2 (conditions init_state ! 2) 7
                  (clock sample_env (clock_i init_state + 1) - clock sample_env (clock_i init_state))
                  (init_state\<lparr>trial_no := 3, rnd_i := 6, key_buffer := [''q''],
                     clock_i := clock_i init_state + 2, trial_no := 3 + 1\<rparr>)))"
    by simp
  from a b c show ?thesis by blast
qed

lemma numeric_not_decimal_raises:
  assumes "t < length (conditions s)"
    and "place_circles (nat (conditions s ! t)) (rnd e) (rnd_i s) [] = Some (vp, c)"
    and "stim_keys e (trial_no s) = k # rest" and "isnumeric k" and "\<not> isdecimal k"
  shows "run_trial e b t s = Some (Inl ValueError)"
proof -
  have "needs_wait (k # rest) = Inl ValueError"
    using assms(4,5) by (simp add: needs_wait_def py_int_def)
  then have "ask_response e (s\<lparr>rnd_i := c, key_buffer := stim_keys e (trial_no s)\<rparr>) =
      Some (Inl ValueError)"
    using assms(3) by (simp add: ask_response_def Let_def)
  then show ?thesis
    using run_trial_placed [OF assms(1,2), of b] by simp
qed

text \<open>
  C4. The claim: at the response prompt a buffered key that is a valid digit 0-9 is used
  without waiting, and otherwise (no buffered key, or a non-digit or out-of-range key)
  the buffered input is discarded and the program blocks on a wait restricted to the
  digit keys. The script guards \<^verbatim>\<open>int(keys[0])\<close> with \<^verbatim>\<open>keys[0].isnumeric()\<close>, which
  also holds of numeric characters that \<^verbatim>\<open>int\<close> does not read. With the key
  \<^verbatim>\<open>superscript two\<close> (code point 178, which is not a digit key) buffered while the
  circles are shown, the condition of line 238 raises \<^verbatim>\<open>ValueError\<close>: the trial ends in
  that error, the key is not discarded and nothing is waited for.
\<close>

theorem superscript_two_key_raises:
  "isnumeric [CHR 0xB2] \<and> py_int [CHR 0xB2] = Inl ValueError \<and> [CHR 0xB2] \<notin> set digit_keys \<and>
   run_trial (sample_env\<lparr>stim_keys := (\<lambda>t. [[CHR 0xB2]])\<rparr>) 1 2 init_state = Some (Inl ValueError)"
  by code_simp

section \<open>Where candidates are drawn\<close>

lemma bounds_values: "x_lo = - 81" "x_hi = 81" "y_lo = - 81" "y_hi = 81"
  by (simp_all add: x_lo_def x_hi_def y_lo_def y_hi_def WINDOW_X_def WINDOW_Y_def
      WINDOW_PADDING_def CIRCLE_DIAMETER_def CIRCLE_RADIUS_def)

lemma randint_range:
  assumes "a \<le> b"
  shows "a \<le> randint a b r \<and> randint a b r \<le> b"
proof -
  have "r mod nat (b - a + 1) < nat (b - a + 1)"
    using assms by simp
  then have "int (r mod nat (b - a + 1)) < b - a + 1"
    using assms by linarith
  then show ?thesis
    by (simp add: randint_def randbelow_def)
qed

lemma randint_bij: "bij_betw (randint (- 81) 81) {0..<163} {- 81..81}"
proof (rule bij_betw_byWitness [where f' = "\<lambda>v. nat (v + 81)"])
  show "\<forall>r \<in> {0..<163}. nat (randint (- 81) 81 r + 81) = r"
    by (simp add: randint_def randbelow_def)
  show "\<forall>v \<in> {- 81..81}. randint (- 81) 81 (nat (v + 81)) = v"
  proof
    fix v :: int
    assume "v \<in> {- 81..81}"
    then have "nat (v + 81) < 163" and "0 \<le> v + 81"
      by auto
    then show "randint (- 81) 81 (nat (v + 81)) = v"
      by (simp add: randint_def randbelow_def)
  qed
  show "randint (- 81) 81 ` {0..<163} \<subseteq> {- 81..81}"
    using randint_range [of "- 81" 81] by auto
  show "(\<lambda>v. nat (v + 81)) ` {- 81..81} \<subseteq> {0..<163}"
    by auto
qed

lemma candidate_in_frame:
  "- 81 \<le> fst (candidate g c) \<and> fst (candidate g c) \<le> 81 \<and>
   - 81 \<le> snd (candidate g c) \<and> snd (candidate g c) \<le> 81"
  using randint_range [of "- 81" 81] by (simp add: candidate_def bounds_values)

text \<open>
  C5, as claimed: each candidate coordinate is drawn from the region inset by the margin
  and by half the minimum distance, that is from \<open>[-(300 - 200 - 9), 300 - 200 - 9]\<close>.
  The bounds the script hands to \<^verbatim>\<open>random.randint\<close> are \<open>-81\<close> and \<open>81\<close>, not \<open>-91\<close> and
  \<open>91\<close>: the largest raw draw gives 81, and the next one starts again at \<open>-81\<close>.
\<close>

theorem candidate_interval_counterexample:
  "spec_bound WINDOW_X = 300 - 200 - 9 \<and> spec_bound WINDOW_Y = 300 - 200 - 9 \<and>
   (x_lo, x_hi) = (- 81, 81) \<and> (y_lo, y_hi) = (- 81, 81) \<and>
   (x_lo, x_hi) \<noteq> (- spec_bound WINDOW_X, spec_bound WINDOW_X) \<and>
   (y_lo, y_hi) \<noteq> (- spec_bound WINDOW_Y, spec_bound WINDOW_Y) \<and>
   randint x_lo x_hi 162 = 81 \<and> randint x_lo x_hi 163 = - 81"
  by (simp add: spec_bound_def bounds_values randint_def randbelow_def WINDOW_X_def
      WINDOW_Y_def WINDOW_PADDING_def CIRCLE_DIAMETER_def CIRCLE_RADIUS_def)

text \<open>
  C5, amended: the region is inset by the margin, by the whole circle diameter and by
  one more pixel. Each candidate coordinate is a whole number of
  \<open>[-(300 - 200 - 18 - 1), 300 - 200 - 18 - 1] = [-81, 81]\<close>, and every number of that
  interval comes from exactly one of the 163 raw draws \<open>0..162\<close> (which repeat with
  period 163): a uniform generator draws the coordinate uniformly over that interval.
\<close>

theorem candidate_interval:
  "x_lo = - (WINDOW_X div 2 - WINDOW_PADDING - CIRCLE_DIAMETER - 1) \<and>
   x_hi = WINDOW_X div 2 - WINDOW_PADDING - CIRCLE_DIAMETER - 1 \<and>
   y_lo = - (WINDOW_Y div 2 - WINDOW_PADDING - CIRCLE_DIAMETER - 1) \<and>
   y_hi = WINDOW_Y div 2 - WINDOW_PADDING - CIRCLE_DIAMETER - 1 \<and>
   (x_lo, x_hi) = (- (300 - 200 - 18 - 1), 300 - 200 - 18 - 1) \<and>
   (y_lo, y_hi) = (- (300 - 200 - 18 - 1), 300 - 200 - 18 - 1) \<and>
   fst (candidate g c) \<in> {- 81..81} \<and> snd (candidate g c) \<in> {- 81..81} \<and>
   bij_betw (randint x_lo x_hi) {0..<163} {- 81..81} \<and>
   bij_betw (randint y_lo y_hi) {0..<163} {- 81..81} \<and>
   randint x_lo x_hi (r + 163) = randint x_lo x_hi r \<and>
   randint y_lo y_hi (r + 163) = randint y_lo y_hi r"
proof -
  have "randint (- 81) 81 (r + 163) = randint (- 81) 81 r"
    by (simp add: randint_def randbelow_def)
  moreover have "x_lo = - (WINDOW_X div 2 - WINDOW_PADDING - CIRCLE_DIAMETER - 1)"
    "x_hi = WINDOW_X div 2 - WINDOW_PADDING - CIRCLE_DIAMETER - 1"
    "y_lo = - (WINDOW_Y div 2 - WINDOW_PADDING - CIRCLE_DIAMETER - 1)"
    "y_hi = WINDOW_Y div 2 - WINDOW_PADDING - CIRCLE_DIAMETER - 1"
    by (simp_all add: x_lo_def x_hi_def y_lo_def y_hi_def WINDOW_X_def WINDOW_Y_def
        WINDOW_PADDING_def CIRCLE_DIAMETER_def CIRCLE_RADIUS_def)
  ultimately show ?thesis
    using candidate_in_frame [of g c] randint_bij by (simp add: bounds_values)
qed

section \<open>The summary\<close>

lemma sum_as_float:
  "sum_list (map (\<lambda>r. as_float (correct r)) rows) = real (length (filter correct rows))"
  by (induction rows) (simp_all add: as_float_def)

lemma mean_correct:
  "rows \<noteq> [] \<Longrightarrow>
     mean (map (\<lambda>r. as_float (correct r)) rows) =
       Num (real (length (filter correct rows)) / real (length rows))"
  by (simp add: mean_def sum_as_float)

lemma groupby_mean_keys:
  "distinct (map fst (groupby_mean key col rows))" and
  "set (map fst (groupby_mean key col rows)) = key ` set rows"
  by (simp_all add: groupby_mean_def comp_def)

lemma groupby_mean_lookup:
  assumes "k \<in> key ` set rows"
  shows "map_of (groupby_mean key col rows) k =
     Some (mean (map col (filter (\<lambda>r. key r = k) rows)))"
proof -
  have "k \<in> set (sort (remdups (map key rows)))"
    using assms by simp
  then show ?thesis
    unfolding groupby_mean_def by (simp add: map_of_map_restrict)
qed

lemma group_not_empty: "k \<in> key ` set rows \<Longrightarrow> filter (\<lambda>r. key r = k) rows \<noteq> []"
  by (auto simp: filter_empty_conv)

text \<open>
  C6. The accuracy listed for a block is the unweighted mean of \<open>correct\<close> over exactly
  the rows of that block (the number of correct rows over the number of rows), the
  accuracy listed for a number of circles is the same over the rows with that number,
  and the overall accuracy is the same over all rows. Every block and every number of
  circles present in the rows is listed exactly once, and nothing else is listed.
\<close>

theorem summary_accuracy:
  "(\<forall>b \<in> block ` set rows.
      map_of (block_accuracy (summarise rows)) b =
        Some (Num (real (length (filter correct (filter (\<lambda>r. block r = b) rows))) /
                   real (length (filter (\<lambda>r. block r = b) rows))))) \<and>
   (\<forall>n \<in> n_objects_actual ` set rows.
      map_of (circles_accuracy (summarise rows)) n =
        Some (Num (real (length (filter correct (filter (\<lambda>r. n_objects_actual r = n) rows))) /
                   real (length (filter (\<lambda>r. n_objects_actual r = n) rows))))) \<and>
   (rows \<noteq> [] \<longrightarrow>
      overall_accuracy (summarise rows) =
        Num (real (length (filter correct rows)) / real (length rows))) \<and>
   distinct (map fst (block_accuracy (summarise rows))) \<and>
   set (map fst (block_accuracy (summarise rows))) = block ` set rows \<and>
   distinct (map fst (circles_accuracy (summarise rows))) \<and>
   set (map fst (circles_accuracy (summarise rows))) = n_objects_actual ` set rows"
proof -
  have "map_of (block_accuracy (summarise rows)) b =
        Some (Num (real (length (filter correct (filter (\<lambda>r. block r = b) rows))) /
                   real (length (filter (\<lambda>r. block r = b) rows))))"
    if "b \<in> block ` set rows" for b
    using groupby_mean_lookup [OF that] mean_correct [OF group_not_empty [OF that]]
    by (simp add: summarise_def)
  moreover have "map_of (circles_accuracy (summarise rows)) n =
        Some (Num (real (length (filter correct (filter (\<lambda>r. n_objects_actual r = n) rows))) /
                   real (length (filter (\<lambda>r. n_objects_actual r = n) rows))))"
    if "n \<in> n_objects_actual ` set rows" for n
    using groupby_mean_lookup [OF that] mean_correct [OF group_not_empty [OF that]]
    by (simp add: summarise_def)
  moreover have "overall_accuracy (summarise rows) =
        Num (real (length (filter correct rows)) / real (length rows))" if "rows \<noteq> []"
    using mean_correct [OF that] by (simp add: summarise_def)
  moreover have "distinct (map fst (block_accuracy (summarise rows)))"
    "set (map fst (block_accuracy (summarise rows))) = block ` set rows"
    "distinct (map fst (circles_accuracy (summarise rows)))"
    "set (map fst (circles_accuracy (summarise rows))) = n_objects_actual ` set rows"
    by (simp_all add: summarise_def groupby_mean_def comp_def)
  ultimately show ?thesis
    by blast
qed

theorem summary_accuracy_witness:
  "1 \<in> block ` set sample_rows \<and> 3 \<in> n_objects_actual ` set sample_rows \<and> sample_rows \<noteq> [] \<and>
   map_of (block_accuracy (summarise sample_rows)) 1 = Some (Num (1 / 2)) \<and>
   map_of (circles_accuracy (summarise sample_rows)) 3 = Some (Num 1) \<and>
   overall_accuracy (summarise sample_rows) = Num (2 / 3) \<and>
   map fst (block_accuracy (summarise sample_rows)) = [1, 2] \<and>
   map fst (circles_accuracy (summarise sample_rows)) = [3, 10]"
proof -
  have k: "1 \<in> block ` set sample_rows" "3 \<in> n_objects_actual ` set sample_rows"
    "sample_rows \<noteq> []"
    by (simp_all add: sample_rows_def)
  have "map fst (block_accuracy (summarise sample_rows)) = [1, 2]"
    "map fst (circles_accuracy (summarise sample_rows)) = [3, 10]"
    by (simp_all add: summarise_def groupby_mean_def sample_rows_def)
  moreover have
    "map_of (block_accuracy (summarise sample_rows)) 1 = Some (Num (1 / 2))"
    "map_of (circles_accuracy (summarise sample_rows)) 3 = Some (Num 1)"
    "overall_accuracy (summarise sample_rows) = Num (2 / 3)"
    using summary_accuracy [of sample_rows] k by (simp_all add: sample_rows_def)
  ultimately show ?thesis
    using k by blast
qed




section \<open>Placing the circles: what the loop returns, and when\<close>

lemma distance_sym: "distance p q = distance q p"
  by (simp add: distance_def power2_commute)

lemma separated_snoc:
  "separated d (ps @ [p]) \<longleftrightarrow> separated d ps \<and> (\<forall>q \<in> set ps. d < distance p q)"
proof
  assume s: "separated d (ps @ [p])"
  have "separated d ps"
    unfolding separated_def
  proof (intro allI impI)
    fix i j
    assume "i < length ps" "j < length ps" "i \<noteq> j"
    with s have "d < distance ((ps @ [p]) ! i) ((ps @ [p]) ! j)"
      by (simp add: separated_def)
    with \<open>i < length ps\<close> \<open>j < length ps\<close> show "d < distance (ps ! i) (ps ! j)"
      by (simp add: nth_append)
  qed
  moreover have "d < distance p q" if "q \<in> set ps" for q
  proof -
    from that obtain i where i: "i < length ps" "ps ! i = q"
      by (auto simp: in_set_conv_nth)
    have "length ps < length (ps @ [p])" "i < length (ps @ [p])" "length ps \<noteq> i"
      using i by simp_all
    with s have "d < distance ((ps @ [p]) ! length ps) ((ps @ [p]) ! i)"
      unfolding separated_def by blast
    with i show ?thesis
      by (simp add: nth_append)
  qed
  ultimately show "separated d ps \<and> (\<forall>q \<in> set ps. d < distance p q)"
    by blast
next
  assume a: "separated d ps \<and> (\<forall>q \<in> set ps. d < distance p q)"
  show "separated d (ps @ [p])"
    unfolding separated_def
  proof (intro allI impI)
    fix i j
    assume ij: "i < length (ps @ [p])" "j < length (ps @ [p])" "i \<noteq> j"
    consider "i < length ps" "j < length ps" | "i = length ps" "j < length ps"
      | "i < length ps" "j = length ps"
      using ij by fastforce
    then show "d < distance ((ps @ [p]) ! i) ((ps @ [p]) ! j)"
    proof cases
      case 1
      with a ij(3) show ?thesis
        by (simp add: separated_def nth_append)
    next
      case 2
      with a show ?thesis
        by (simp add: nth_append)
    next
      case 3
      with a have "d < distance p (ps ! i)"
        by simp
      with 3 show ?thesis
        by (simp add: nth_append distance_sym)
    qed
  qed
qed

lemma find_position_Some:
  assumes "find_position g c ps = Some r"
  shows "\<not> overlaps (fst r) ps \<and>
     (\<exists>j. fst r = candidate g (c + 2 * j) \<and> snd r = c + 2 * j + 2)"
proof (rule find_position.raw_induct
    [where P = "\<lambda>g c ps r. \<not> overlaps (fst r) ps \<and>
       (\<exists>j. fst r = candidate g (c + 2 * j) \<and> snd r = c + 2 * j + 2)"], goal_cases)
  case (1 f g c ps r)
  show ?case
  proof (cases "overlaps (candidate g c) ps")
    case True
    with 1(2) have "f g (c + 2) ps = Some r"
      by (simp add: Let_def)
    from 1(1) [OF this] obtain j where
      "\<not> overlaps (fst r) ps" "fst r = candidate g (c + 2 + 2 * j)" "snd r = c + 2 + 2 * j + 2"
      by blast
    then have "fst r = candidate g (c + 2 * Suc j) \<and> snd r = c + 2 * Suc j + 2"
      by (simp add: add.assoc)
    with \<open>\<not> overlaps (fst r) ps\<close> show ?thesis
      by blast
  next
    case False
    with 1(2) have "r = (candidate g c, c + 2)"
      by (simp add: Let_def)
    with False have "\<not> overlaps (fst r) ps \<and> fst r = candidate g (c + 2 * 0) \<and> snd r = c + 2 * 0 + 2"
      by simp
    then show ?thesis
      by blast
  qed
next
  case 2
  show ?case by (rule assms)
qed

lemma find_position_never:
  assumes "\<forall>c. overlaps (candidate g c) ps"
  shows "find_position g c ps = None"
proof (cases "find_position g c ps")
  case None
  then show ?thesis .
next
  case (Some r)
  from find_position_Some [OF this] assms show ?thesis
    by metis
qed

lemma find_position_finds:
  "\<not> overlaps (candidate g (c + 2 * j)) ps \<Longrightarrow>
     \<exists>i \<le> j. find_position g c ps = Some (candidate g (c + 2 * i), c + 2 * i + 2) \<and>
        \<not> overlaps (candidate g (c + 2 * i)) ps"
proof (induction j arbitrary: c)
  case 0
  then have "find_position g c ps = Some (candidate g c, c + 2)"
    by (subst find_position.simps) simp
  with 0 show ?case
    by simp
next
  case (Suc j)
  show ?case
  proof (cases "overlaps (candidate g c) ps")
    case True
    from Suc.prems have "\<not> overlaps (candidate g (c + 2 + 2 * j)) ps"
      by (simp add: add.assoc)
    from Suc.IH [OF this] obtain i where i: "i \<le> j"
      "find_position g (c + 2) ps = Some (candidate g (c + 2 + 2 * i), c + 2 + 2 * i + 2)"
      "\<not> overlaps (candidate g (c + 2 + 2 * i)) ps"
      by blast
    from True have "find_position g c ps = find_position g (c + 2) ps"
      by (subst find_position.simps) simp
    with i have "Suc i \<le> Suc j \<and>
        find_position g c ps = Some (candidate g (c + 2 * Suc i), c + 2 * Suc i + 2) \<and>
        \<not> overlaps (candidate g (c + 2 * Suc i)) ps"
      by (simp add: add.assoc)
    then show ?thesis
      by blast
  next
    case False
    then have "find_position g c ps = Some (candidate g c, c + 2)"
      by (subst find_position.simps) simp
    with False have "0 \<le> Suc j \<and>
        find_position g c ps = Some (candidate g (c + 2 * 0), c + 2 * 0 + 2) \<and>
        \<not> overlaps (candidate g (c + 2 * 0)) ps"
      by simp
    then show ?thesis
      by blast
  qed
qed

text \<open>
  Room for ten circles: a circle excludes at most the \<open>37 \<times> 37\<close> points around it, and
  nine times that is less than the \<open>163 \<times> 163\<close> points of the frame.
\<close>

lemma overlaps_near:
  assumes "overlaps p ps"
  shows "\<exists>q \<in> set ps. p \<in> {fst q - 18..fst q + 18} \<times> {snd q - 18..snd q + 18}"
proof -
  from assms obtain q where q: "q \<in> set ps"
    and d: "(fst p - fst q)\<^sup>2 + (snd p - snd q)\<^sup>2 \<le> CIRCLE_DIAMETER\<^sup>2"
    by (auto simp: overlaps_iff distance_le_iff)
  have "(fst p - fst q)\<^sup>2 \<le> 18\<^sup>2" "(snd p - snd q)\<^sup>2 \<le> 18\<^sup>2"
    using d by (simp_all add: CIRCLE_DIAMETER_def CIRCLE_RADIUS_def)
      (smt (verit) zero_le_power2)+
  then have "\<bar>fst p - fst q\<bar> \<le> 18" "\<bar>snd p - snd q\<bar> \<le> 18"
    using power2_le_iff_abs_le [of 18 "fst p - fst q"] power2_le_iff_abs_le [of 18 "snd p - snd q"]
    by simp_all
  then have "p \<in> {fst q - 18..fst q + 18} \<times> {snd q - 18..snd q + 18}"
    by (cases p) auto
  with q show ?thesis
    by blast
qed

lemma free_point:
  assumes "length ps \<le> 9"
  shows "\<exists>x y. - 81 \<le> x \<and> x \<le> 81 \<and> - 81 \<le> y \<and> y \<le> 81 \<and> \<not> overlaps (x, y) ps"
proof (rule ccontr)
  let ?G = "{- 81..81} \<times> {- 81..81} :: (int \<times> int) set"
  let ?S = "\<lambda>q :: int \<times> int. {fst q - 18..fst q + 18} \<times> {snd q - 18..snd q + 18}"
  assume "\<not> ?thesis"
  then have "?G \<subseteq> (\<Union>q \<in> set ps. ?S q)"
    using overlaps_near by fastforce
  moreover have "finite (\<Union>q \<in> set ps. ?S q)"
    by simp
  ultimately have "card ?G \<le> card (\<Union>q \<in> set ps. ?S q)"
    by (rule card_mono [rotated])
  also have "\<dots> \<le> (\<Sum>q \<in> set ps. card (?S q))"
    by (rule card_UN_le) simp
  also have "\<dots> = card (set ps) * 1369"
    by (simp add: card_cartesian_product)
  also have "\<dots> \<le> 9 * 1369"
    using assms card_length [of ps] by simp
  finally show False
    by (simp add: card_cartesian_product)
qed

lemma place_circles_fair:
  assumes fair: "fair_from g c"
  shows "length ps + n \<le> 10 \<Longrightarrow> separated (real_of_int CIRCLE_DIAMETER) ps \<Longrightarrow>
     inside_square 81 ps \<Longrightarrow>
     \<exists>qs k'. place_circles n g (c + 2 * k) ps = Some (ps @ qs, c + 2 * k') \<and> length qs = n \<and>
        separated (real_of_int CIRCLE_DIAMETER) (ps @ qs) \<and> inside_square 81 (ps @ qs)"
proof (induction n arbitrary: ps k)
  case 0
  then show ?case by auto
next
  case (Suc n)
  from Suc.prems(1) have "length ps \<le> 9"
    by simp
  from free_point [OF this] obtain x y where
    xy: "- 81 \<le> x" "x \<le> 81" "- 81 \<le> y" "y \<le> 81" and free: "\<not> overlaps (x, y) ps"
    by blast
  from fair xy obtain j where j: "k \<le> j" "candidate g (c + 2 * j) = (x, y)"
    unfolding fair_from_def bounds_values by blast
  then have "\<not> overlaps (candidate g (c + 2 * k + 2 * (j - k))) ps"
    using free by (simp add: algebra_simps)
  from find_position_finds [OF this] obtain i where
    f: "find_position g (c + 2 * k) ps =
          Some (candidate g (c + 2 * k + 2 * i), c + 2 * k + 2 * i + 2)" and
    ok: "\<not> overlaps (candidate g (c + 2 * k + 2 * i)) ps"
    by blast
  let ?p = "candidate g (c + 2 * k + 2 * i)"
  have cur: "c + 2 * k + 2 * i + 2 = c + 2 * (k + i + 1)"
    by simp
  have sep: "separated (real_of_int CIRCLE_DIAMETER) (ps @ [?p])"
    using Suc.prems(2) ok by (auto simp: separated_snoc overlaps_iff not_le)
  have ins: "inside_square 81 (ps @ [?p])"
    using Suc.prems(3) candidate_in_frame [of g "c + 2 * k + 2 * i"]
    by (auto simp: inside_square_def)
  have "length (ps @ [?p]) + n \<le> 10"
    using Suc.prems(1) by simp
  from Suc.IH [OF this sep ins, of "k + i + 1"] obtain qs k' where
    "place_circles n g (c + 2 * (k + i + 1)) (ps @ [?p]) = Some ((ps @ [?p]) @ qs, c + 2 * k')"
    "length qs = n" "separated (real_of_int CIRCLE_DIAMETER) ((ps @ [?p]) @ qs)"
    "inside_square 81 ((ps @ [?p]) @ qs)"
    by blast
  then have "place_circles (Suc n) g (c + 2 * k) ps = Some (ps @ (?p # qs), c + 2 * k') \<and>
      length (?p # qs) = Suc n \<and>
      separated (real_of_int CIRCLE_DIAMETER) (ps @ (?p # qs)) \<and>
      inside_square 81 (ps @ (?p # qs))"
    using f cur by (simp add: add.assoc)
  then show ?case
    by blast
qed

lemma place_circles_Some:
  "place_circles n g c ps = Some (res, c') \<Longrightarrow>
     separated (real_of_int CIRCLE_DIAMETER) ps \<Longrightarrow> inside_square 81 ps \<Longrightarrow>
     length res = length ps + n \<and> separated (real_of_int CIRCLE_DIAMETER) res \<and>
     inside_square 81 res"
proof (induction n arbitrary: ps c)
  case 0
  then show ?case by simp
next
  case (Suc n)
  from Suc.prems(1) obtain p c1 where
    f: "find_position g c ps = Some (p, c1)" and
    r: "place_circles n g c1 (ps @ [p]) = Some (res, c')"
    by (auto split: option.splits)
  from find_position_Some [OF f] obtain j where
    ok: "\<not> overlaps p ps" and p: "p = candidate g (c + 2 * j)"
    by auto
  have sep: "separated (real_of_int CIRCLE_DIAMETER) (ps @ [p])"
    using Suc.prems(2) ok by (auto simp: separated_snoc overlaps_iff not_le)
  have ins: "inside_square 81 (ps @ [p])"
    using Suc.prems(3) candidate_in_frame [of g "c + 2 * j"] p
    by (auto simp: inside_square_def)
  from Suc.IH [OF r sep ins] show ?case
    by simp
qed

lemma sweeping_source_fair: "fair_from sweeping_source 0"
  unfolding fair_from_def bounds_values
proof (intro allI impI)
  fix x y :: int and k :: nat
  assume xy: "- 81 \<le> x \<and> x \<le> 81 \<and> - 81 \<le> y \<and> y \<le> 81"
  define a b where "a = nat (x + 81)" and "b = nat (y + 81)"
  define m where "m = b + 163 * k"
  define j where "j = a + 163 * m"
  have a: "a < 163" and b: "b < 163"
    using xy by (auto simp: a_def b_def)
  have "j mod 163 = a"
    using a by (simp add: j_def)
  moreover have "j div 163 = m"
    using a by (simp add: j_def)
  moreover have "m mod 163 = b"
    using b by (simp add: m_def)
  ultimately have "sweeping_source (2 * j) = a" "sweeping_source (2 * j + 1) = b"
    by (simp_all add: sweeping_source_def)
  moreover have "randint (- 81) 81 a = x" "randint (- 81) 81 b = y"
    using xy a b by (simp_all add: randint_def randbelow_def a_def b_def)
  ultimately have "candidate sweeping_source (0 + 2 * j) = (x, y)"
    by (simp add: candidate_def bounds_values)
  moreover have "k \<le> j"
    by (simp add: j_def m_def)
  ultimately show "\<exists>j \<ge> k. candidate sweeping_source (0 + 2 * j) = (x, y)"
    by blast
qed

text \<open>
  The loop has no bound of its own. On a source that repeats one number, which is not
  fair, every candidate is the point \<open>(0, 0)\<close>: the first circle is placed there, and the
  loop for the second circle never ends.
\<close>

lemma stuck_source_not_fair: "\<not> fair_from stuck_source c"
proof
  assume "fair_from stuck_source c"
  then have "- 81 \<le> (1::int) \<and> (1::int) \<le> 81 \<and> - 81 \<le> (1::int) \<and> (1::int) \<le> 81 \<longrightarrow>
      (\<exists>j \<ge> 0. candidate stuck_source (c + 2 * j) = (1, 1))"
    unfolding fair_from_def bounds_values by blast
  then have "\<exists>j. candidate stuck_source (c + 2 * j) = (1, 1)"
    by simp
  then show False
    by (simp add: candidate_def stuck_source_def bounds_values randint_def randbelow_def)
qed

lemma stuck_source_never_returns:
  "find_position stuck_source 0 [] = Some ((0, 0), 2) \<and>
   place_circles 2 stuck_source 0 [] = None"
proof -
  have c: "candidate stuck_source c = (0, 0)" for c
    by (simp add: candidate_def stuck_source_def bounds_values randint_def randbelow_def)
  have first: "find_position stuck_source 0 [] = Some ((0, 0), 2)"
    by (subst find_position.simps) (simp add: c)
  have "\<forall>c. overlaps (candidate stuck_source c) [(0, 0)]"
    by (simp add: c distance_def CIRCLE_DIAMETER_def CIRCLE_RADIUS_def)
  then have "find_position stuck_source 2 [(0, 0)] = None"
    by (rule find_position_never)
  with first show ?thesis
    by (simp add: numeral_2_eq_2)
qed

text \<open>
  C2. For a count \<open>n\<close> in 1..10 and the settings of the script (positions drawn from
  \<open>[-81, 81]\<close> on each axis, minimum distance the circle diameter 18), with the draws of
  a random source that is fair from the cursor on, as those of a uniform generator are:
  the loop terminates, having produced exactly \<open>n\<close> positions, each within
  \<open>x \<in> [-82, 82]\<close> and \<open>y \<in> [-82, 82]\<close>, and every two of them further apart than 18.
  The size, the bounds and the separation hold of whatever the loop returns.
\<close>

theorem placement:
  assumes "1 \<le> n" and "n \<le> 10"
  shows "(fair_from g c \<longrightarrow> (\<exists>ps c'. place_circles n g c [] = Some (ps, c'))) \<and>
    (\<forall>ps c'. place_circles n g c [] = Some (ps, c') \<longrightarrow>
       length ps = n \<and> inside_square 82 ps \<and> separated 18 ps)"
proof -
  have e: "separated (real_of_int CIRCLE_DIAMETER) []" "inside_square 81 []"
    by (simp_all add: separated_def inside_square_def)
  have "\<exists>ps c'. place_circles n g c [] = Some (ps, c')" if "fair_from g c"
    using place_circles_fair [OF that _ e, of n 0] assms(2) by auto
  moreover have "length ps = n \<and> inside_square 82 ps \<and> separated 18 ps"
    if "place_circles n g c [] = Some (ps, c')" for ps c'
  proof -
    from place_circles_Some [OF that e] have
      l: "length ps = n" and s: "separated (real_of_int CIRCLE_DIAMETER) ps" and
      i: "inside_square 81 ps"
      by simp_all
    from i have "inside_square 82 ps"
      by (fastforce simp: inside_square_def)
    moreover from s have "separated 18 ps"
      by (simp add: CIRCLE_DIAMETER_def CIRCLE_RADIUS_def)
    ultimately show ?thesis
      using l by simp
  qed
  ultimately show ?thesis
    by blast
qed

theorem placement_witness:
  "(1::nat) \<le> 5 \<and> (5::nat) \<le> 10 \<and> fair_from sweeping_source 0 \<and>
   place_circles 5 sweeping_source 0 [] =
     Some ([(- 81, - 81), (- 62, - 81), (- 43, - 81), (- 24, - 81), (- 5, - 81)], 154) \<and>
   inside_square 82 [(- 81, - 81), (- 62, - 81), (- 43, - 81), (- 24, - 81), (- 5, - 81)] \<and>
   separated 18 [(- 81, - 81), (- 62, - 81), (- 43, - 81), (- 24, - 81), (- 5, - 81)]"
proof -
  have v: "place_circles 5 sweeping_source 0 [] =
     Some ([(- 81, - 81), (- 62, - 81), (- 43, - 81), (- 24, - 81), (- 5, - 81)], 154)"
    by code_simp
  from placement [of 5 sweeping_source 0] v sweeping_source_fair show ?thesis
    by simp
qed

end
